theory Spec2Isabelle
  imports Main "HOL-Library.Sublist"
begin

section \<open>Bytes, constants and errors\<close>

text \<open>
  A \<open>Uint8Array\<close> / \<open>Buffer\<close> is a list of bytes. Isabelle's \<^typ>\<open>char\<close> is an
  eight-bit byte, so a byte list and an ASCII string are the same type and the wire
  texts of the protocol can be written as string literals.
\<close>

type_synonym bytes = "char list"

definition CR :: char where
  "CR = CHR 0x0D"

definition LF :: char where
  "LF = CHR 0x0A"

definition CRLF :: bytes where
  "CRLF = [CR, LF]"

definition GURT_VERSION :: string where
  "GURT_VERSION = ''GURT/1.0.0''"

definition MAX_MESSAGE_SIZE :: nat where
  "MAX_MESSAGE_SIZE = 10 * 1024 * 1024"

text \<open>
  The four \<open>throw new Error(...)\<close> of the source, by message. No other error is
  raised by the code modelled here.
\<close>

datatype error = UnexpectedEOF | InvalidProtocol | InvalidStatusCode | InvalidHeader

section \<open>The delimiter search\<close>

text \<open>
  \<open>#indexOfCRLF\<close> (web port) and the closure \<open>idx\<close> (Node port) are the same loop:
  \<^verbatim>\<open>for (let i = 0; i + 1 < b.length; i++) if (b[i] === 13 && b[i + 1] === 10) return i;\<close>
  \<^verbatim>\<open>return -1;\<close>
\<close>

function indexOfCRLF_from :: "bytes \<Rightarrow> nat \<Rightarrow> int" where
  "indexOfCRLF_from b i =
     (if i + 1 < length b
      then (if b ! i = CR \<and> b ! (i + 1) = LF then int i else indexOfCRLF_from b (i + 1))
      else - 1)"
  by pat_completeness auto
termination
  by (relation "measure (\<lambda>(b, i). length b - i)") auto

declare indexOfCRLF_from.simps [simp del]

definition indexOfCRLF :: "bytes \<Rightarrow> int" where
  "indexOfCRLF b = indexOfCRLF_from b 0"

text \<open>Position \<open>i\<close> of \<open>b\<close> starts a delimiter.\<close>

definition crlf_at :: "bytes \<Rightarrow> nat \<Rightarrow> bool" where
  "crlf_at b i = (i + 1 < length b \<and> b ! i = CR \<and> b ! (i + 1) = LF)"

text \<open>Position \<open>k\<close> starts the first delimiter of \<open>b\<close>.\<close>

definition first_crlf :: "bytes \<Rightarrow> nat \<Rightarrow> bool" where
  "first_crlf b k = (crlf_at b k \<and> (\<forall>j<k. \<not> crlf_at b j))"

section \<open>The buffered reader over a web stream\<close>

text \<open>
  The web port's \<open>BufferedReader\<close>. Its \<open>#reader\<close> is the read side of the transport:
  a \<open>ReadableStreamDefaultReader\<close> whose \<open>read()\<close> yields the chunks of the stream one
  at a time and then \<open>{done: true}\<close>. The model holds the chunks the stream has yet to
  deliver; the stream closes after the last one. \<open>#done\<close> is \<open>is_done\<close> here.
\<close>

record BufferedReader =
  reader :: "bytes list"
  buf :: bytes
  is_done :: bool

definition new_BufferedReader :: "bytes list \<Rightarrow> BufferedReader" where
  "new_BufferedReader readable = \<lparr>reader = readable, buf = [], is_done = False\<rparr>"

definition append_chunk :: "bytes \<Rightarrow> BufferedReader \<Rightarrow> BufferedReader" where
  "append_chunk chunk r = r\<lparr>buf := buf r @ chunk\<rparr>"

definition pullOne :: "BufferedReader \<Rightarrow> BufferedReader" where
  "pullOne r =
     (if is_done r then r
      else (case reader r of
              [] \<Rightarrow> r\<lparr>is_done := True\<rparr>
            | val # rest \<Rightarrow> append_chunk val (r\<lparr>reader := rest\<rparr>)))"

text \<open>
  \<^verbatim>\<open>while (cond && !this.#done) await this.#pullOne();\<close>
  Every pull either takes a chunk off the stream or sets \<open>#done\<close>, so the loop ends.
\<close>

function pull_while :: "(BufferedReader \<Rightarrow> bool) \<Rightarrow> BufferedReader \<Rightarrow> BufferedReader" where
  "pull_while cond r = (if cond r \<and> \<not> is_done r then pull_while cond (pullOne r) else r)"
  by pat_completeness auto
termination
  by (relation "measure (\<lambda>(cond, r). length (reader r) + (if is_done r then 0 else 1))")
     (auto simp: pullOne_def append_chunk_def split: list.splits)

declare pull_while.simps [simp del]

definition readExact :: "nat \<Rightarrow> BufferedReader \<Rightarrow> (error + bytes) \<times> BufferedReader" where
  "readExact n r =
     (let r1 = pull_while (\<lambda>s. length (buf s) < n) r in
      if length (buf r1) < n then (Inl UnexpectedEOF, r1)
      else (Inr (take n (buf r1)), r1\<lparr>buf := drop n (buf r1)\<rparr>))"

definition readUntilCRLF :: "BufferedReader \<Rightarrow> (error + bytes) \<times> BufferedReader" where
  "readUntilCRLF r =
     (let r1 = pull_while (\<lambda>s. indexOfCRLF (buf s) < 0) r;
          idx = indexOfCRLF (buf r1) in
      if idx < 0 then (Inl UnexpectedEOF, r1)
      else (Inr (take (nat (idx + 2)) (buf r1)), r1\<lparr>buf := drop (nat (idx + 2)) (buf r1)\<rparr>))"

text \<open>\<open>readAvailable\<close> has no \<open>throw\<close>: its result is always a value.\<close>

definition readAvailable :: "nat \<Rightarrow> BufferedReader \<Rightarrow> (error + bytes) \<times> BufferedReader" where
  "readAvailable n r =
     (let r1 = (if length (buf r) = 0 \<and> \<not> is_done r then pullOne r else r);
          take_n = min n (length (buf r1)) in
      (Inr (take take_n (buf r1)), r1\<lparr>buf := drop take_n (buf r1)\<rparr>))"

text \<open>
  The bytes a reader has not yet returned: what is buffered, then what the stream still
  holds. Once \<open>#done\<close> is set the reader never calls \<open>read()\<close> again.
\<close>

definition pending :: "BufferedReader \<Rightarrow> bytes" where
  "pending r = buf r @ (if is_done r then [] else concat (reader r))"

section \<open>The buffered reader over a Node socket\<close>

text \<open>
  The Node port's \<open>BufferedReader\<close> listens on a \<open>Duplex\<close>: every \<open>'data'\<close> event
  calls \<open>push(chunk)\<close>, the \<open>'end'\<close> event calls \<open>push(Buffer.alloc(0))\<close>. The read side
  of the socket is modelled by the data chunks it has yet to emit; after the last one it
  emits \<open>'end'\<close> once, and nothing after that. \<open>socket.readableEnded\<close> is true from the
  moment \<open>'end'\<close> is emitted. The source's field \<open>buf\<close> is \<open>node_buf\<close> here.
\<close>

record NodeBufferedReader =
  socket :: "bytes list"
  readableEnded :: bool
  node_buf :: bytes

definition new_NodeBufferedReader :: "bytes list \<Rightarrow> NodeBufferedReader" where
  "new_NodeBufferedReader sock = \<lparr>socket = sock, readableEnded = False, node_buf = []\<rparr>"

text \<open>
  \<open>push\<close> appends a non-empty chunk and then wakes every waiter; the waking is the
  recursion of \<open>waitFor\<close> below.
\<close>

definition push :: "bytes \<Rightarrow> NodeBufferedReader \<Rightarrow> NodeBufferedReader" where
  "push chunk r = (if length chunk > 0 then r\<lparr>node_buf := node_buf r @ chunk\<rparr> else r)"

text \<open>The next event of the socket, run through the listener the constructor installed.\<close>

definition emit_next :: "NodeBufferedReader \<Rightarrow> NodeBufferedReader" where
  "emit_next r =
     (case socket r of
        c # cs \<Rightarrow> push c (r\<lparr>socket := cs\<rparr>)
      | [] \<Rightarrow> push [] (r\<lparr>readableEnded := True\<rparr>))"

text \<open>
  \<^verbatim>\<open>if (predicate()) return;\<close>
  \<^verbatim>\<open>await new Promise<void>((resolve) => this.resolvers.push(resolve));\<close>
  \<^verbatim>\<open>return this.waitFor(predicate);\<close>
  The promise is resolved by the next \<open>push\<close> only. Once \<open>'end'\<close> has been emitted no
  event follows, so a waiter whose predicate is false then is never resumed: the result
  \<open>None\<close> stands for a promise that stays pending forever.
\<close>

function waitFor :: "(NodeBufferedReader \<Rightarrow> bool) \<Rightarrow> NodeBufferedReader \<Rightarrow> NodeBufferedReader option" where
  "waitFor predicate r =
     (if predicate r then Some r
      else if readableEnded r then None
      else waitFor predicate (emit_next r))"
  by pat_completeness auto
termination
  by (relation "measure (\<lambda>(p, r). length (socket r) + (if readableEnded r then 0 else 1))")
     (auto simp: emit_next_def push_def split: list.splits)

declare waitFor.simps [simp del]

definition node_readExact ::
  "nat \<Rightarrow> NodeBufferedReader \<Rightarrow> ((error + bytes) \<times> NodeBufferedReader) option" where
  "node_readExact n r =
     (case waitFor (\<lambda>s. length (node_buf s) \<ge> n \<or> length (node_buf s) = 0 \<and> readableEnded s) r of
        None \<Rightarrow> None
      | Some r1 \<Rightarrow>
          Some (if length (node_buf r1) < n then (Inl UnexpectedEOF, r1)
                else (Inr (take n (node_buf r1)), r1\<lparr>node_buf := drop n (node_buf r1)\<rparr>)))"

definition node_readUntilCRLF ::
  "NodeBufferedReader \<Rightarrow> ((error + bytes) \<times> NodeBufferedReader) option" where
  "node_readUntilCRLF r =
     (case waitFor (\<lambda>s. indexOfCRLF (node_buf s) \<ge> 0 \<or>
                        (length (node_buf s) = 0 \<and> readableEnded s)) r of
        None \<Rightarrow> None
      | Some r1 \<Rightarrow>
          (let i = indexOfCRLF (node_buf r1) in
           Some (if i < 0 then (Inl UnexpectedEOF, r1)
                 else (Inr (take (nat (i + 2)) (node_buf r1)),
                       r1\<lparr>node_buf := drop (nat (i + 2)) (node_buf r1)\<rparr>))))"

definition node_readAvailable ::
  "nat \<Rightarrow> NodeBufferedReader \<Rightarrow> ((error + bytes) \<times> NodeBufferedReader) option" where
  "node_readAvailable n r =
     (case (if length (node_buf r) = 0
            then waitFor (\<lambda>s. length (node_buf s) > 0 \<or> readableEnded s) r
            else Some r) of
        None \<Rightarrow> None
      | Some r1 \<Rightarrow>
          (let take_n = min n (length (node_buf r1)) in
           Some (Inr (take take_n (node_buf r1)),
                 r1\<lparr>node_buf := drop take_n (node_buf r1)\<rparr>)))"

text \<open>The bytes a Node reader has not yet returned.\<close>

definition node_pending :: "NodeBufferedReader \<Rightarrow> bytes" where
  "node_pending r = node_buf r @ (if readableEnded r then [] else concat (socket r))"

section \<open>Strings of the platform\<close>

text \<open>
  The line parsers use \<open>String.prototype.split\<close>, \<open>indexOf\<close>, \<open>slice\<close>, \<open>trim\<close>,
  \<open>toLowerCase\<close> and the global \<open>parseInt\<close>. They are functions of the language, not
  of this repository; they are written here after ECMAScript for strings whose code
  units are below \<open>0x80\<close>, where a code unit is a \<^typ>\<open>char\<close>.
\<close>

definition isWhiteSpace :: "char \<Rightarrow> bool" where
  "isWhiteSpace c = (c = CHR 0x09 \<or> c = CHR 0x0A \<or> c = CHR 0x0B \<or> c = CHR 0x0C \<or>
                     c = CHR 0x0D \<or> c = CHR 0x20)"

definition isDigit :: "char \<Rightarrow> bool" where
  "isDigit c = (48 \<le> (of_char c :: nat) \<and> (of_char c :: nat) \<le> 57)"

definition js_trim :: "string \<Rightarrow> string" where
  "js_trim s = rev (dropWhile isWhiteSpace (rev (dropWhile isWhiteSpace s)))"

definition js_toLowerCase :: "string \<Rightarrow> string" where
  "js_toLowerCase s =
     map (\<lambda>c. if 65 \<le> (of_char c :: nat) \<and> (of_char c :: nat) \<le> 90
              then char_of ((of_char c :: nat) + 32) else c) s"

text \<open>\<open>s.split(' ')\<close>: the pieces between single spaces; never an empty array.\<close>

fun js_split :: "string \<Rightarrow> string list" where
  "js_split [] = [[]]"
| "js_split (c # cs) =
     (if c = CHR '' '' then [] # js_split cs
      else (case js_split cs of
              [] \<Rightarrow> [[c]]
            | p # ps \<Rightarrow> (c # p) # ps))"

text \<open>\<open>s.indexOf(c)\<close>: the first position of \<open>c\<close>, or \<open>-1\<close>.\<close>

fun js_indexOf :: "char \<Rightarrow> string \<Rightarrow> int" where
  "js_indexOf c [] = - 1"
| "js_indexOf c (x # xs) =
     (if x = c then 0
      else (let i = js_indexOf c xs in if i < 0 then - 1 else i + 1))"

text \<open>
  The JavaScript numbers that \<open>parseInt\<close> can produce. A number is an IEEE 754
  double: \<open>NaN\<close>, the two infinities, negative zero, or \<open>Num i\<close>, the double whose value
  is the integer \<open>i\<close> (\<open>Num 0\<close> is positive zero).
\<close>

datatype js_number = NaN | NegZero | Num int | PosInfinity | NegInfinity

definition digits_value :: "string \<Rightarrow> int" where
  "digits_value ds = fold (\<lambda>c acc. acc * 10 + ((of_char c :: int) - 48)) ds 0"

text \<open>The number of binary digits of \<open>m\<close>.\<close>

function bit_length :: "int \<Rightarrow> nat" where
  "bit_length m = (if m \<le> 0 then 0 else Suc (bit_length (m div 2)))"
  by pat_completeness auto

termination
  by (relation "measure nat") auto

declare bit_length.simps [simp del]

text \<open>
  The double nearest to the natural number \<open>m\<close>, as a natural number: a double has 53
  significant binary digits, so from \<open>2 ^ 53\<close> on the low \<open>e\<close> digits are rounded away,
  to the nearest multiple of \<open>2 ^ e\<close> and to the even one of two that are equally near.
\<close>

definition round_to_double :: "int \<Rightarrow> int" where
  "round_to_double m =
     (if m < 2 ^ 53 then m
      else (let e = bit_length m - 53;
                q = m div 2 ^ e;
                r = m mod 2 ^ e;
                half = 2 ^ (e - 1);
                q' = (if r > half \<or> (r = half \<and> odd q) then q + 1 else q)
            in q' * 2 ^ e))"

text \<open>
  The number for the integer with magnitude \<open>m\<close> and the given sign, as the last steps of
  \<open>parseInt\<close> produce it: a zero keeps the sign, and a magnitude that rounds to
  \<open>2 ^ 1024\<close> or more is an infinity.
\<close>

definition to_Number :: "bool \<Rightarrow> int \<Rightarrow> js_number" where
  "to_Number negative m =
     (if m = 0 then (if negative then NegZero else Num 0)
      else (let d = round_to_double m in
            if d \<ge> 2 ^ 1024 then (if negative then NegInfinity else PosInfinity)
            else Num (if negative then - d else d)))"

text \<open>
  \<open>parseInt(string, 10)\<close>: skip leading white space, take one optional sign, then the
  longest run of decimal digits; \<open>NaN\<close> when that run is empty, and otherwise the number
  for the signed integer the digits denote. The engines convert the whole run; the
  language fixes the result for runs of up to twenty significant digits. An absent
  argument (\<open>parts[1]\<close> of a one-token line is \<open>undefined\<close>) is first converted to the
  string \<open>"undefined"\<close>.
\<close>

definition parseInt :: "string option \<Rightarrow> js_number" where
  "parseInt arg =
     (let inputString = (case arg of None \<Rightarrow> ''undefined'' | Some str \<Rightarrow> str);
          S = dropWhile isWhiteSpace inputString;
          negative = (S \<noteq> [] \<and> hd S = CHR ''-'');
          S' = (if S \<noteq> [] \<and> (hd S = CHR ''+'' \<or> hd S = CHR ''-'') then tl S else S);
          Z = takeWhile isDigit S'
      in if Z = [] then NaN else to_Number negative (digits_value Z))"

text \<open>\<open>parts[i]\<close>: \<open>undefined\<close> beyond the end of the array.\<close>

definition parts_at :: "string list \<Rightarrow> nat \<Rightarrow> string option" where
  "parts_at parts i = (if i < length parts then Some (parts ! i) else None)"

text \<open>
  \<open>buf.toString('ascii')\<close> of Node clears the top bit of every byte, so the Node port
  only ever parses strings of code units below \<open>0x80\<close>.
\<close>

definition ascii_toString :: "bytes \<Rightarrow> string" where
  "ascii_toString b = map (\<lambda>c. char_of ((of_char c :: nat) mod 128)) b"

definition is_ascii :: "string \<Rightarrow> bool" where
  "is_ascii s = list_all (\<lambda>c. (of_char c :: nat) < 128) s"

section \<open>The response reader\<close>

text \<open>
  \<open>status\<close> is \<open>code as unknown as StatusCode\<close>: whatever number \<open>parseInt\<close> gave,
  \<open>NaN\<close> apart.
\<close>

record StatusLineResult =
  status :: js_number
  bytesRead :: nat

record HeaderResult =
  name :: string
  header_value :: string
  totalBytes :: nat

text \<open>
  The statements of \<open>readStatusLine\<close> after the line has been decoded; they are the same
  in both ports. \<open>len\<close> is \<open>buf.length\<close>.
\<close>

definition statusLine_of :: "string \<Rightarrow> nat \<Rightarrow> error + StatusLineResult" where
  "statusLine_of line len =
     (let parts = js_split line in
      if parts_at parts 0 \<noteq> Some GURT_VERSION then Inl InvalidProtocol
      else (let code = parseInt (parts_at parts 1) in
            if code = NaN then Inl InvalidStatusCode
            else Inr \<lparr>status = code, bytesRead = len\<rparr>))"

text \<open>
  The statements of \<open>readHeader\<close> after the test for the bare delimiter and the
  decoding; the same in both ports.
\<close>

definition header_of :: "string \<Rightarrow> nat \<Rightarrow> error + HeaderResult option" where
  "header_of line len =
     (let idx = js_indexOf (CHR '':'') line in
      if idx < 0 then Inl InvalidHeader
      else Inr (Some \<lparr>name = js_toLowerCase (js_trim (take (nat idx) line)),
                      header_value = js_trim (drop (nat (idx + 1)) line),
                      totalBytes = len\<rparr>))"

text \<open>
  The web port decodes with \<open>new TextDecoder('utf-8')\<close>, an object of the platform held
  in the field \<open>#decoder\<close>; it is the parameter \<open>decoder\<close> of the web functions.
\<close>

definition readStatusLine ::
  "(bytes \<Rightarrow> string) \<Rightarrow> BufferedReader \<Rightarrow> (error + StatusLineResult) \<times> BufferedReader" where
  "readStatusLine decoder r =
     (case readUntilCRLF r of
        (Inl e, r') \<Rightarrow> (Inl e, r')
      | (Inr b, r') \<Rightarrow> (statusLine_of (decoder (take (length b - 2) b)) (length b), r'))"

definition readHeader ::
  "(bytes \<Rightarrow> string) \<Rightarrow> BufferedReader \<Rightarrow> (error + HeaderResult option) \<times> BufferedReader" where
  "readHeader decoder r =
     (case readUntilCRLF r of
        (Inl e, r') \<Rightarrow> (Inl e, r')
      | (Inr b, r') \<Rightarrow>
          (if length b = 2 then (Inr None, r')
           else (header_of (decoder (take (length b - 2) b)) (length b), r')))"


definition node_readStatusLine ::
  "NodeBufferedReader \<Rightarrow> ((error + StatusLineResult) \<times> NodeBufferedReader) option" where
  "node_readStatusLine r =
     (case node_readUntilCRLF r of
        None \<Rightarrow> None
      | Some (Inl e, r') \<Rightarrow> Some (Inl e, r')
      | Some (Inr b, r') \<Rightarrow>
          Some (statusLine_of (ascii_toString (take (length b - 2) b)) (length b), r'))"

definition node_readHeader ::
  "NodeBufferedReader \<Rightarrow> ((error + HeaderResult option) \<times> NodeBufferedReader) option" where
  "node_readHeader r =
     (case node_readUntilCRLF r of
        None \<Rightarrow> None
      | Some (Inl e, r') \<Rightarrow> Some (Inl e, r')
      | Some (Inr b, r') \<Rightarrow>
          (if length b = 2 then Some (Inr None, r')
           else Some (header_of (ascii_toString (take (length b - 2) b)) (length b), r')))"


section \<open>What a status code token is\<close>

text \<open>
  Written from the words of the claim as amended, not from \<open>parseInt\<close>: the token
  \<open>tok\<close> begins with an integer when it is some white space, then at most one sign,
  then a run of one or more decimal digits that cannot be made longer, then anything.
  \<open>m\<close> is the value of the digits and \<open>negative\<close> tells whether the sign is a minus.
\<close>

definition integer_prefix :: "string \<Rightarrow> bool \<Rightarrow> int \<Rightarrow> bool" where
  "integer_prefix tok negative m =
     (\<exists>ws sg ds rest.
        tok = ws @ sg @ ds @ rest \<and>
        list_all isWhiteSpace ws \<and>
        (sg = [] \<or> sg = ''+'' \<or> sg = ''-'') \<and>
        ds \<noteq> [] \<and> list_all isDigit ds \<and>
        (rest = [] \<or> \<not> isDigit (hd rest)) \<and>
        negative = (sg = ''-'') \<and> m = digits_value ds)"

section \<open>The clients\<close>

datatype Method = Get | Post | Put | Delete | Head | Options | Patch | Handshake

fun method_string :: "Method \<Rightarrow> string" where
  "method_string Get = ''GET''"
| "method_string Post = ''POST''"
| "method_string Put = ''PUT''"
| "method_string Delete = ''DELETE''"
| "method_string Head = ''HEAD''"
| "method_string Options = ''OPTIONS''"
| "method_string Patch = ''PATCH''"
| "method_string Handshake = ''HANDSHAKE''"

text \<open>
  A web transport is a readable and a writable stream. The writable side is modelled by
  the chunks it has been given, in order. Texts are written through
  \<open>TextEncoder.encode\<close>; a string of the model stands for its UTF-8 bytes, so encoding
  is the identity.
\<close>

record WebTransport =
  readable :: "bytes list"
  writable :: "bytes list"

record StreamWriter =
  writer :: "bytes list"

definition new_StreamWriter :: "bytes list \<Rightarrow> StreamWriter" where
  "new_StreamWriter w = \<lparr>writer = w\<rparr>"

text \<open>\<open>StreamWriter.write\<close>.\<close>

definition writer_write :: "bytes \<Rightarrow> StreamWriter \<Rightarrow> StreamWriter" where
  "writer_write chunk w = w\<lparr>writer := writer w @ [chunk]\<rparr>"

text \<open>
  A \<open>BufferedReader\<close> is an object: the client and every \<open>ResponseReader\<close> made from it
  hold a reference to it, not a copy, and a read through any of them changes the one
  object. The reader objects are kept in a store, in order of creation, and a reference
  is a position in the store. \<open>new BufferedReader(...)\<close> puts a new object at the end.
\<close>

type_synonym ref = nat

type_synonym reader_store = "BufferedReader list"

text \<open>
  The web \<open>GurtClient\<close>; its fields \<open>#reader\<close> and \<open>#writer\<close> are \<open>client_reader\<close> and
  \<open>client_writer\<close> here.
\<close>

record GurtClient =
  transport :: WebTransport
  client_reader :: ref
  client_writer :: StreamWriter

definition new_GurtClient :: "WebTransport \<Rightarrow> reader_store \<Rightarrow> GurtClient \<times> reader_store" where
  "new_GurtClient t store =
     (\<lparr>transport = t,
       client_reader = length store,
       client_writer = new_StreamWriter (writable t)\<rparr>,
      store @ [new_BufferedReader (readable t)])"

definition setTransport ::
  "WebTransport \<Rightarrow> GurtClient \<Rightarrow> reader_store \<Rightarrow> GurtClient \<times> reader_store" where
  "setTransport t c store =
     (c\<lparr>transport := t,
        client_reader := length store,
        client_writer := new_StreamWriter (writable t)\<rparr>,
      store @ [new_BufferedReader (readable t)])"

text \<open>
  \<open>responseReader()\<close> is \<open>new ResponseReader(this.#reader)\<close>: the new object keeps the
  reference the client holds at that moment. (Its \<open>#decoder\<close> is the parameter of the web
  line readers.)
\<close>

record ResponseReader =
  rr_reader :: ref

definition responseReader :: "GurtClient \<Rightarrow> ResponseReader" where
  "responseReader c = \<lparr>rr_reader = client_reader c\<rparr>"

definition writeAll :: "bytes \<Rightarrow> GurtClient \<Rightarrow> GurtClient" where
  "writeAll data c = c\<lparr>client_writer := writer_write data (client_writer c)\<rparr>"

definition requestNoBody ::
  "Method \<Rightarrow> string \<Rightarrow> string \<Rightarrow> string option \<Rightarrow> GurtClient \<Rightarrow> GurtClient" where
  "requestNoBody method path host userAgent c =
     (let ua = (case userAgent of None \<Rightarrow> ''yo-gurt/0.1'' | Some u \<Rightarrow> u);
          c1 = writeAll (method_string method @ '' '' @ path @ '' '' @ GURT_VERSION @ CRLF) c;
          c2 = writeAll (''host: '' @ host @ CRLF) c1;
          c3 = writeAll (''user-agent: '' @ ua @ CRLF) c2
      in writeAll CRLF c3)"

text \<open>The bytes the write side of the transport has received.\<close>

definition wire :: "GurtClient \<Rightarrow> bytes" where
  "wire c = concat (writer (client_writer c))"

text \<open>
  The Node \<open>GurtClient\<close>. A \<open>Duplex\<close> has a read side, which only the listeners of the
  \<open>BufferedReader\<close> touch, and a write side, which only \<open>writeAll\<close> touches:
  \<open>node_socket_written\<close> is what \<open>socket.write\<close> has accepted, in order, and the read
  side is inside the reader object that \<open>node_reader\<close> refers to. A write that returns
  \<open>false\<close> has still queued its data. The reader objects of the Node port are kept in a
  store of their own.
\<close>

type_synonym node_reader_store = "NodeBufferedReader list"

record NodeGurtClient =
  node_socket_written :: "bytes list"
  node_reader :: ref

record Duplex =
  readable_side :: "bytes list"
  writable_side :: "bytes list"

definition new_NodeGurtClient ::
  "Duplex \<Rightarrow> node_reader_store \<Rightarrow> NodeGurtClient \<times> node_reader_store" where
  "new_NodeGurtClient sock store =
     (\<lparr>node_socket_written = writable_side sock,
       node_reader = length store\<rparr>,
      store @ [new_NodeBufferedReader (readable_side sock)])"

definition setSocket ::
  "Duplex \<Rightarrow> NodeGurtClient \<Rightarrow> node_reader_store \<Rightarrow> NodeGurtClient \<times> node_reader_store" where
  "setSocket sock c store =
     (c\<lparr>node_socket_written := writable_side sock,
        node_reader := length store\<rparr>,
      store @ [new_NodeBufferedReader (readable_side sock)])"

text \<open>\<open>responseReader()\<close> is \<open>new ResponseReader(this.socket, this.reader)\<close>.\<close>

record NodeResponseReader =
  node_rr_reader :: ref

definition node_responseReader :: "NodeGurtClient \<Rightarrow> NodeResponseReader" where
  "node_responseReader c = \<lparr>node_rr_reader = node_reader c\<rparr>"

text \<open>
  \<open>writeAll\<close> settles when the socket calls back or drains; the model is of writes the
  socket accepts.
\<close>

definition node_writeAll :: "bytes \<Rightarrow> NodeGurtClient \<Rightarrow> NodeGurtClient" where
  "node_writeAll data c = c\<lparr>node_socket_written := node_socket_written c @ [data]\<rparr>"

definition node_requestNoBody ::
  "Method \<Rightarrow> string \<Rightarrow> string \<Rightarrow> string option \<Rightarrow> NodeGurtClient \<Rightarrow> NodeGurtClient" where
  "node_requestNoBody method path host userAgent c =
     (let ua = (case userAgent of None \<Rightarrow> ''yo-gurt/0.1'' | Some u \<Rightarrow> u);
          c1 = node_writeAll (method_string method @ '' '' @ path @ '' '' @ GURT_VERSION @ CRLF) c;
          c2 = node_writeAll (''host: '' @ host @ CRLF) c1;
          c3 = node_writeAll (''user-agent: '' @ ua @ CRLF) c2
      in node_writeAll CRLF c3)"

definition node_wire :: "NodeGurtClient \<Rightarrow> bytes" where
  "node_wire c = concat (node_socket_written c)"

section \<open>Sequences of reads\<close>

text \<open>
  A caller's sequence of reads on one reader. A call that throws returns no bytes and
  the sequence goes on with the reader as the call left it.
\<close>

datatype read_op = ReadExact nat | ReadUntilCRLF | ReadAvailable nat

fun returned :: "error + bytes \<Rightarrow> bytes" where
  "returned (Inl e) = []"
| "returned (Inr b) = b"

fun run_op :: "read_op \<Rightarrow> BufferedReader \<Rightarrow> (error + bytes) \<times> BufferedReader" where
  "run_op (ReadExact n) r = readExact n r"
| "run_op ReadUntilCRLF r = readUntilCRLF r"
| "run_op (ReadAvailable n) r = readAvailable n r"

fun run_ops :: "read_op list \<Rightarrow> BufferedReader \<Rightarrow> bytes \<times> BufferedReader" where
  "run_ops [] r = ([], r)"
| "run_ops (x # xs) r =
     (case run_op x r of
        (res, r1) \<Rightarrow> (case run_ops xs r1 of (out, r2) \<Rightarrow> (returned res @ out, r2)))"

text \<open>
  On a socket, events also arrive while no read is waiting (\<open>Arrive\<close>: the socket emits
  its next event, if it has not ended). A call that is never resumed ends the sequence:
  the result is \<open>None\<close>.
\<close>

datatype node_step = Call read_op | Arrive

fun node_run_op ::
  "read_op \<Rightarrow> NodeBufferedReader \<Rightarrow> ((error + bytes) \<times> NodeBufferedReader) option" where
  "node_run_op (ReadExact n) r = node_readExact n r"
| "node_run_op ReadUntilCRLF r = node_readUntilCRLF r"
| "node_run_op (ReadAvailable n) r = node_readAvailable n r"

fun node_run_steps ::
  "node_step list \<Rightarrow> NodeBufferedReader \<Rightarrow> (bytes \<times> NodeBufferedReader) option" where
  "node_run_steps [] r = Some ([], r)"
| "node_run_steps (Arrive # xs) r =
     node_run_steps xs (if readableEnded r then r else emit_next r)"
| "node_run_steps (Call x # xs) r =
     (case node_run_op x r of
        None \<Rightarrow> None
      | Some (res, r1) \<Rightarrow>
          (case node_run_steps xs r1 of
             None \<Rightarrow> None
           | Some (out, r2) \<Rightarrow> Some (returned res @ out, r2)))"

text \<open>
  Reads made through a \<open>ResponseReader\<close>: \<open>readStatusLine\<close> and \<open>readHeader\<close> call
  \<open>readUntilCRLF\<close>, \<open>readBody\<close> calls \<open>readAvailable\<close> and \<open>readBodyExact\<close> calls
  \<open>readExact\<close>, each on the reader object it refers to, which they change in the store.
\<close>

definition reads_through ::
  "read_op list \<Rightarrow> ResponseReader \<Rightarrow> reader_store \<Rightarrow> bytes \<times> reader_store" where
  "reads_through xs rr store =
     (case run_ops xs (store ! rr_reader rr) of
        (out, r') \<Rightarrow> (out, store[rr_reader rr := r']))"

definition node_reads_through ::
  "node_step list \<Rightarrow> NodeResponseReader \<Rightarrow> node_reader_store \<Rightarrow>
     (bytes \<times> node_reader_store) option" where
  "node_reads_through xs rr store =
     (case node_run_steps xs (store ! node_rr_reader rr) of
        None \<Rightarrow> None
      | Some (out, r') \<Rightarrow> Some (out, store[node_rr_reader rr := r']))"

section \<open>Properties of the delimiter search\<close>

lemma indexOfCRLF_from_range: "indexOfCRLF_from b i = - 1 \<or> int i \<le> indexOfCRLF_from b i"
proof (induction b i rule: indexOfCRLF_from.induct)
  case (1 b i)
  show ?case
  proof (cases "i + 1 < length b \<and> \<not> (b ! i = CR \<and> b ! (i + 1) = LF)")
    case True
    with 1 have "indexOfCRLF_from b (i + 1) = - 1 \<or> int (i + 1) \<le> indexOfCRLF_from b (i + 1)"
      by blast
    moreover from True have "indexOfCRLF_from b i = indexOfCRLF_from b (i + 1)"
      by (subst indexOfCRLF_from.simps) auto
    ultimately show ?thesis by auto
  next
    case False
    then show ?thesis by (subst (1 2) indexOfCRLF_from.simps) auto
  qed
qed

lemma indexOfCRLF_from_none:
  "indexOfCRLF_from b i = - 1 \<longleftrightarrow> (\<forall>j\<ge>i. \<not> crlf_at b j)"
proof (induction b i rule: indexOfCRLF_from.induct)
  case (1 b i)
  show ?case
  proof (cases "i + 1 < length b")
    case False
    then show ?thesis
      by (subst indexOfCRLF_from.simps) (auto simp: crlf_at_def)
  next
    case inb: True
    show ?thesis
    proof (cases "b ! i = CR \<and> b ! (i + 1) = LF")
      case True
      with inb have "indexOfCRLF_from b i = int i"
        by (subst indexOfCRLF_from.simps) simp
      moreover from True inb have "crlf_at b i"
        by (simp add: crlf_at_def)
      ultimately show ?thesis by auto
    next
      case False
      with inb have eq: "indexOfCRLF_from b i = indexOfCRLF_from b (i + 1)"
        by (subst indexOfCRLF_from.simps) auto
      from False have ni: "\<not> crlf_at b i" by (auto simp: crlf_at_def)
      from 1 inb False
      have ih: "indexOfCRLF_from b (i + 1) = - 1 \<longleftrightarrow> (\<forall>j\<ge>i + 1. \<not> crlf_at b j)"
        by blast
      have "(\<forall>j\<ge>i + 1. \<not> crlf_at b j) \<longleftrightarrow> (\<forall>j\<ge>i. \<not> crlf_at b j)"
      proof
        assume a: "\<forall>j\<ge>i + 1. \<not> crlf_at b j"
        show "\<forall>j\<ge>i. \<not> crlf_at b j"
        proof (intro allI impI)
          fix j assume "i \<le> j"
          then have "j = i \<or> i + 1 \<le> j" by arith
          with a ni show "\<not> crlf_at b j" by auto
        qed
      qed auto
      with eq ih show ?thesis by simp
    qed
  qed
qed

lemma indexOfCRLF_from_first:
  "indexOfCRLF_from b i = int k \<longleftrightarrow> (i \<le> k \<and> crlf_at b k \<and> (\<forall>j. i \<le> j \<and> j < k \<longrightarrow> \<not> crlf_at b j))"
proof (induction b i rule: indexOfCRLF_from.induct)
  case (1 b i)
  show ?case
  proof (cases "i + 1 < length b")
    case False
    then have "indexOfCRLF_from b i = - 1"
      by (subst indexOfCRLF_from.simps) auto
    moreover from False have "\<not> (i \<le> k \<and> crlf_at b k)"
      by (auto simp: crlf_at_def)
    ultimately show ?thesis by auto
  next
    case inb: True
    show ?thesis
    proof (cases "b ! i = CR \<and> b ! (i + 1) = LF")
      case True
      with inb have v: "indexOfCRLF_from b i = int i"
        by (subst indexOfCRLF_from.simps) simp
      from True inb have c: "crlf_at b i"
        by (simp add: crlf_at_def)
      show ?thesis
      proof
        assume "indexOfCRLF_from b i = int k"
        with v have "k = i" by simp
        with c show "i \<le> k \<and> crlf_at b k \<and> (\<forall>j. i \<le> j \<and> j < k \<longrightarrow> \<not> crlf_at b j)"
          by auto
      next
        assume a: "i \<le> k \<and> crlf_at b k \<and> (\<forall>j. i \<le> j \<and> j < k \<longrightarrow> \<not> crlf_at b j)"
        have "\<not> i < k"
        proof
          assume "i < k"
          with a have "\<not> crlf_at b i" by auto
          with c show False by simp
        qed
        with a have "k = i" by auto
        with v show "indexOfCRLF_from b i = int k" by simp
      qed
    next
      case False
      with inb have eq: "indexOfCRLF_from b i = indexOfCRLF_from b (i + 1)"
        by (subst indexOfCRLF_from.simps) auto
      from False have ni: "\<not> crlf_at b i" by (auto simp: crlf_at_def)
      from 1 inb False
      have ih: "indexOfCRLF_from b (i + 1) = int k \<longleftrightarrow>
          (i + 1 \<le> k \<and> crlf_at b k \<and> (\<forall>j. i + 1 \<le> j \<and> j < k \<longrightarrow> \<not> crlf_at b j))"
        by blast
      have "(i + 1 \<le> k \<and> crlf_at b k \<and> (\<forall>j. i + 1 \<le> j \<and> j < k \<longrightarrow> \<not> crlf_at b j)) \<longleftrightarrow>
            (i \<le> k \<and> crlf_at b k \<and> (\<forall>j. i \<le> j \<and> j < k \<longrightarrow> \<not> crlf_at b j))"
        (is "?L \<longleftrightarrow> ?R")
      proof
        assume l: ?L
        have "\<forall>j. i \<le> j \<and> j < k \<longrightarrow> \<not> crlf_at b j"
        proof (intro allI impI)
          fix j assume "i \<le> j \<and> j < k"
          then have "j = i \<or> (i + 1 \<le> j \<and> j < k)" by arith
          with l ni show "\<not> crlf_at b j" by auto
        qed
        with l show ?R by auto
      next
        assume r: ?R
        with ni have "k \<noteq> i" by auto
        with r show ?L by auto
      qed
      with eq ih show ?thesis by simp
    qed
  qed
qed

lemma indexOfCRLF_cases: "indexOfCRLF b = - 1 \<or> (\<exists>k. indexOfCRLF b = int k)"
proof -
  have "indexOfCRLF b = - 1 \<or> 0 \<le> indexOfCRLF b"
    using indexOfCRLF_from_range [of b 0] by (simp add: indexOfCRLF_def)
  then show ?thesis
    by (metis nonneg_int_cases)
qed

lemma indexOfCRLF_neg: "indexOfCRLF b < 0 \<longleftrightarrow> indexOfCRLF b = - 1"
  using indexOfCRLF_cases [of b] by auto

lemma indexOfCRLF_none: "indexOfCRLF b = - 1 \<longleftrightarrow> (\<forall>j. \<not> crlf_at b j)"
  by (simp add: indexOfCRLF_def indexOfCRLF_from_none)

lemma indexOfCRLF_found:
  "indexOfCRLF b = int k \<longleftrightarrow> (crlf_at b k \<and> (\<forall>j<k. \<not> crlf_at b j))"
  by (simp add: indexOfCRLF_def indexOfCRLF_from_first)

lemma crlf_at_append: "j + 1 < length xs \<Longrightarrow> crlf_at (xs @ ys) j = crlf_at xs j"
  by (auto simp: crlf_at_def nth_append)

lemma crlf_at_length: "crlf_at xs j \<Longrightarrow> j + 1 < length xs"
  by (simp add: crlf_at_def)

lemma indexOfCRLF_append:
  assumes "indexOfCRLF xs = int k"
  shows "indexOfCRLF (xs @ ys) = int k"
proof -
  from assms have c: "crlf_at xs k" and n: "\<forall>j<k. \<not> crlf_at xs j"
    by (simp_all add: indexOfCRLF_found)
  from c have k: "k + 1 < length xs" by (rule crlf_at_length)
  with c have "crlf_at (xs @ ys) k" by (simp add: crlf_at_append)
  moreover have "\<forall>j<k. \<not> crlf_at (xs @ ys) j"
  proof (intro allI impI)
    fix j assume "j < k"
    with k have "j + 1 < length xs" by arith
    with n \<open>j < k\<close> show "\<not> crlf_at (xs @ ys) j" by (simp add: crlf_at_append)
  qed
  ultimately show ?thesis by (simp add: indexOfCRLF_found)
qed

lemma indexOfCRLF_append_none:
  "indexOfCRLF (xs @ ys) = - 1 \<Longrightarrow> indexOfCRLF xs = - 1"
  using indexOfCRLF_append [of xs _ ys] indexOfCRLF_cases [of xs] by fastforce

lemma indexOfCRLF_bound: "indexOfCRLF b = int k \<Longrightarrow> k + 2 \<le> length b"
  by (auto simp: indexOfCRLF_found crlf_at_def)

lemma pending_pullOne: "pending (pullOne r) = pending r"
  by (auto simp: pending_def pullOne_def append_chunk_def split: list.splits)

lemma pending_pull_while: "pending (pull_while c r) = pending r"
proof (induction c r rule: pull_while.induct)
  case (1 c r)
  then show ?case
    by (subst pull_while.simps) (simp add: pending_pullOne)
qed

lemma pull_while_exit: "\<not> c (pull_while c r) \<or> is_done (pull_while c r)"
proof (induction c r rule: pull_while.induct)
  case (1 c r)
  then show ?case
    by (subst (1 2) pull_while.simps) auto
qed

lemma pull_while_stop: "\<not> c r \<or> is_done r \<Longrightarrow> pull_while c r = r"
  by (subst pull_while.simps) auto

lemma done_pending: "is_done r \<Longrightarrow> pending r = buf r"
  by (simp add: pending_def)

lemma buf_prefix_pending: "prefix (buf r) (pending r)"
  by (simp add: pending_def)

lemma reader_pullOne_done: "is_done (pullOne r) \<Longrightarrow> \<not> is_done r \<Longrightarrow> reader (pullOne r) = []"
  by (auto simp: pullOne_def append_chunk_def split: list.splits)

lemma reader_pull_while_done:
  "is_done (pull_while c r) \<Longrightarrow> \<not> is_done r \<Longrightarrow> reader (pull_while c r) = []"
proof (induction c r rule: pull_while.induct)
  case (1 c r)
  show ?case
  proof (cases "c r \<and> \<not> is_done r")
    case True
    then have eq: "pull_while c r = pull_while c (pullOne r)"
      by (subst pull_while.simps) simp
    show ?thesis
    proof (cases "is_done (pullOne r)")
      case True
      then have "pull_while c (pullOne r) = pullOne r" by (simp add: pull_while_stop)
      with eq True "1.prems" show ?thesis by (simp add: reader_pullOne_done)
    next
      case False
      with 1 True eq show ?thesis by simp
    qed
  next
    case False
    then have "pull_while c r = r" by (simp add: pull_while_stop)
    with "1.prems" show ?thesis by simp
  qed
qed

lemma readUntilCRLF_found:
  assumes "indexOfCRLF (pending r) = int k"
  shows "fst (readUntilCRLF r) = Inr (take (k + 2) (pending r))"
    and "pending (snd (readUntilCRLF r)) = drop (k + 2) (pending r)"
proof -
  define r1 where "r1 = pull_while (\<lambda>s. indexOfCRLF (buf s) < 0) r"
  have p: "pending r1 = pending r" by (simp add: r1_def pending_pull_while)
  obtain ys where ys: "pending r1 = buf r1 @ ys"
    using buf_prefix_pending [of r1] by (auto simp: prefix_def)
  have ex: "\<not> indexOfCRLF (buf r1) < 0 \<or> is_done r1"
    unfolding r1_def by (rule pull_while_exit)
  have "indexOfCRLF (buf r1) \<noteq> - 1"
  proof
    assume a: "indexOfCRLF (buf r1) = - 1"
    with ex have "is_done r1" by simp
    then have "pending r1 = buf r1" by (rule done_pending)
    with a p assms show False by simp
  qed
  then obtain j where j: "indexOfCRLF (buf r1) = int j"
    using indexOfCRLF_cases [of "buf r1"] by auto
  then have "indexOfCRLF (buf r1 @ ys) = int j" by (rule indexOfCRLF_append)
  with ys p assms have jk: "j = k" by simp
  from j jk have len: "k + 2 \<le> length (buf r1)" using indexOfCRLF_bound [of "buf r1" k] by simp
  have n: "nat (int k + 2) = k + 2" by simp
  from j jk have res: "readUntilCRLF r =
      (Inr (take (k + 2) (buf r1)), r1\<lparr>buf := drop (k + 2) (buf r1)\<rparr>)"
    by (simp add: readUntilCRLF_def r1_def [symmetric] Let_def n)
  from len ys p have t: "take (k + 2) (buf r1) = take (k + 2) (pending r)"
    by (metis take_append diff_is_0_eq take_0 append_Nil2)
  from res t show "fst (readUntilCRLF r) = Inr (take (k + 2) (pending r))" by simp
  have "pending (r1\<lparr>buf := drop (k + 2) (buf r1)\<rparr>) = drop (k + 2) (buf r1) @ ys"
    using ys by (auto simp: pending_def)
  also have "\<dots> = drop (k + 2) (pending r)"
    using len ys p by (metis drop_append diff_is_0_eq drop_0)
  finally show "pending (snd (readUntilCRLF r)) = drop (k + 2) (pending r)"
    using res by simp
qed

lemma readUntilCRLF_none:
  assumes "indexOfCRLF (pending r) = - 1"
  shows "fst (readUntilCRLF r) = Inl UnexpectedEOF"
    and "buf (snd (readUntilCRLF r)) = pending r"
    and "is_done (snd (readUntilCRLF r))"
proof -
  define r1 where "r1 = pull_while (\<lambda>s. indexOfCRLF (buf s) < 0) r"
  have p: "pending r1 = pending r" by (simp add: r1_def pending_pull_while)
  obtain ys where ys: "pending r1 = buf r1 @ ys"
    using buf_prefix_pending [of r1] by (auto simp: prefix_def)
  have ex: "\<not> indexOfCRLF (buf r1) < 0 \<or> is_done r1"
    unfolding r1_def by (rule pull_while_exit)
  from assms p ys have a: "indexOfCRLF (buf r1) = - 1"
    using indexOfCRLF_append_none [of "buf r1" ys] by simp
  with ex have d: "is_done r1" by simp
  from a have res: "readUntilCRLF r = (Inl UnexpectedEOF, r1)"
    by (simp add: readUntilCRLF_def r1_def [symmetric] Let_def)
  from res show "fst (readUntilCRLF r) = Inl UnexpectedEOF" by simp
  from res d p show "buf (snd (readUntilCRLF r)) = pending r"
    by (simp add: done_pending [symmetric])
  from res d show "is_done (snd (readUntilCRLF r))" by simp
qed

lemma readExact_short:
  assumes "length (pending r) < n"
  shows "fst (readExact n r) = Inl UnexpectedEOF"
    and "buf (snd (readExact n r)) = pending r"
    and "is_done (snd (readExact n r))"
proof -
  define r1 where "r1 = pull_while (\<lambda>s. length (buf s) < n) r"
  have p: "pending r1 = pending r" by (simp add: r1_def pending_pull_while)
  have "length (buf r1) \<le> length (pending r1)"
    using buf_prefix_pending [of r1] by (rule prefix_length_le)
  with p assms have lt: "length (buf r1) < n" by simp
  have "\<not> length (buf r1) < n \<or> is_done r1"
    unfolding r1_def by (rule pull_while_exit)
  with lt have d: "is_done r1" by simp
  from lt have res: "readExact n r = (Inl UnexpectedEOF, r1)"
    by (simp add: readExact_def r1_def [symmetric] Let_def)
  from res show "fst (readExact n r) = Inl UnexpectedEOF" by simp
  from res d p show "buf (snd (readExact n r)) = pending r"
    by (simp add: done_pending [symmetric])
  from res d show "is_done (snd (readExact n r))" by simp
qed

lemma readExact_enough:
  assumes "n \<le> length (pending r)"
  shows "fst (readExact n r) = Inr (take n (pending r))"
    and "pending (snd (readExact n r)) = drop n (pending r)"
proof -
  define r1 where "r1 = pull_while (\<lambda>s. length (buf s) < n) r"
  have p: "pending r1 = pending r" by (simp add: r1_def pending_pull_while)
  obtain ys where ys: "pending r1 = buf r1 @ ys"
    using buf_prefix_pending [of r1] by (auto simp: prefix_def)
  have ex: "\<not> length (buf r1) < n \<or> is_done r1"
    unfolding r1_def by (rule pull_while_exit)
  have len: "n \<le> length (buf r1)"
  proof (cases "is_done r1")
    case True
    then have "pending r1 = buf r1" by (rule done_pending)
    with p assms show ?thesis by simp
  next
    case False
    with ex show ?thesis by simp
  qed
  then have res: "readExact n r = (Inr (take n (buf r1)), r1\<lparr>buf := drop n (buf r1)\<rparr>)"
    by (simp add: readExact_def r1_def [symmetric] Let_def)
  from len ys p have t: "take n (buf r1) = take n (pending r)"
    by (metis take_append diff_is_0_eq take_0 append_Nil2)
  from res t show "fst (readExact n r) = Inr (take n (pending r))" by simp
  have "pending (r1\<lparr>buf := drop n (buf r1)\<rparr>) = drop n (buf r1) @ ys"
    using ys by (auto simp: pending_def)
  also have "\<dots> = drop n (pending r)"
    using len ys p by (metis drop_append diff_is_0_eq drop_0)
  finally show "pending (snd (readExact n r)) = drop n (pending r)"
    using res by simp
qed

section \<open>Properties of the Node reader\<close>

lemma node_pending_emit_next:
  "\<not> readableEnded r \<Longrightarrow> node_pending (emit_next r) = node_pending r"
  by (auto simp: node_pending_def emit_next_def push_def split: list.splits)

lemma node_done_pending: "readableEnded r \<Longrightarrow> node_pending r = node_buf r"
  by (simp add: node_pending_def)

lemma node_buf_prefix_pending: "prefix (node_buf r) (node_pending r)"
  by (simp add: node_pending_def)

lemma waitFor_Some:
  "waitFor p r = Some r1 \<Longrightarrow> p r1 \<and> node_pending r1 = node_pending r"
proof (induction p r rule: waitFor.induct)
  case (1 p r)
  show ?case
  proof (cases "p r")
    case True
    then have "waitFor p r = Some r" by (subst waitFor.simps) simp
    with "1.prems" True show ?thesis by simp
  next
    case np: False
    show ?thesis
    proof (cases "readableEnded r")
      case True
      with np have "waitFor p r = None" by (subst waitFor.simps) simp
      with "1.prems" show ?thesis by simp
    next
      case False
      with np have "waitFor p r = waitFor p (emit_next r)" by (subst waitFor.simps) simp
      with "1.prems" have "waitFor p (emit_next r) = Some r1" by simp
      with "1.IH" np False have "p r1 \<and> node_pending r1 = node_pending (emit_next r)" by blast
      with False show ?thesis by (simp add: node_pending_emit_next)
    qed
  qed
qed

text \<open>A waiter whose predicate no delivery of the remaining events satisfies is never resumed.\<close>

lemma waitFor_None:
  "(\<And>s. node_pending s = node_pending r \<Longrightarrow> \<not> p s) \<Longrightarrow> waitFor p r = None"
proof (induction p r rule: waitFor.induct)
  case (1 p r)
  have np: "\<not> p r" using "1.prems" by blast
  show ?case
  proof (cases "readableEnded r")
    case True
    with np show ?thesis by (subst waitFor.simps) simp
  next
    case False
    with np have eq: "waitFor p r = waitFor p (emit_next r)" by (subst waitFor.simps) simp
    have "waitFor p (emit_next r) = None"
    proof (rule "1.IH")
      show "\<not> p r" by (rule np)
      show "\<not> readableEnded r" by (rule False)
      fix s assume "node_pending s = node_pending (emit_next r)"
      with False have "node_pending s = node_pending r" by (simp add: node_pending_emit_next)
      then show "\<not> p s" by (rule "1.prems")
    qed
    with eq show ?thesis by simp
  qed
qed

text \<open>A waiter whose predicate holds once the socket has ended is resumed.\<close>

lemma waitFor_returns:
  "(\<And>s. node_pending s = node_pending r \<Longrightarrow> readableEnded s \<Longrightarrow> p s) \<Longrightarrow>
   \<exists>r1. waitFor p r = Some r1"
proof (induction p r rule: waitFor.induct)
  case (1 p r)
  show ?case
  proof (cases "p r")
    case True
    then show ?thesis by (subst waitFor.simps) simp
  next
    case np: False
    have ne: "\<not> readableEnded r"
    proof
      assume "readableEnded r"
      then have "p r" using "1.prems" by blast
      with np show False by simp
    qed
    with np have eq: "waitFor p r = waitFor p (emit_next r)" by (subst waitFor.simps) simp
    have "\<exists>r1. waitFor p (emit_next r) = Some r1"
    proof (rule "1.IH")
      show "\<not> p r" by (rule np)
      show "\<not> readableEnded r" by (rule ne)
      fix s assume "node_pending s = node_pending (emit_next r)" and e: "readableEnded s"
      with ne have "node_pending s = node_pending r" by (simp add: node_pending_emit_next)
      then show "p s" using e by (rule "1.prems")
    qed
    with eq show ?thesis by simp
  qed
qed

lemma node_readExact_enough:
  assumes "n \<le> length (node_pending r)"
  shows "\<exists>r'. node_readExact n r = Some (Inr (take n (node_pending r)), r') \<and>
              node_pending r' = drop n (node_pending r)"
proof -
  let ?p = "\<lambda>s. length (node_buf s) \<ge> n \<or> length (node_buf s) = 0 \<and> readableEnded s"
  have "\<exists>r1. waitFor ?p r = Some r1"
  proof (rule waitFor_returns)
    fix s assume "node_pending s = node_pending r" and "readableEnded s"
    with assms show "?p s" by (simp add: node_done_pending)
  qed
  then obtain r1 where w: "waitFor ?p r = Some r1" by blast
  then have pr: "?p r1" and p: "node_pending r1 = node_pending r"
    using waitFor_Some [of ?p r r1] by blast+
  obtain ys where ys: "node_pending r1 = node_buf r1 @ ys"
    using node_buf_prefix_pending [of r1] by (auto simp: prefix_def)
  have len: "n \<le> length (node_buf r1)"
  proof (cases "length (node_buf r1) \<ge> n")
    case True
    then show ?thesis .
  next
    case False
    with pr have "length (node_buf r1) = 0" and "readableEnded r1" by auto
    with p assms show ?thesis by (simp add: node_done_pending)
  qed
  from w len have res: "node_readExact n r =
      Some (Inr (take n (node_buf r1)), r1\<lparr>node_buf := drop n (node_buf r1)\<rparr>)"
    by (simp add: node_readExact_def)
  from len ys p have t: "take n (node_buf r1) = take n (node_pending r)"
    by (metis take_append diff_is_0_eq take_0 append_Nil2)
  have "node_pending (r1\<lparr>node_buf := drop n (node_buf r1)\<rparr>) = drop n (node_buf r1) @ ys"
    using ys by (auto simp: node_pending_def)
  also have "\<dots> = drop n (node_pending r)"
    using len ys p by (metis drop_append diff_is_0_eq drop_0)
  finally show ?thesis using res t by simp
qed

lemma node_readExact_empty:
  assumes "node_pending r = []" and "0 < n"
  shows "\<exists>r'. node_readExact n r = Some (Inl UnexpectedEOF, r')"
proof -
  let ?p = "\<lambda>s. length (node_buf s) \<ge> n \<or> length (node_buf s) = 0 \<and> readableEnded s"
  have "\<exists>r1. waitFor ?p r = Some r1"
  proof (rule waitFor_returns)
    fix s assume "node_pending s = node_pending r" and "readableEnded s"
    with assms show "?p s" by (simp add: node_done_pending)
  qed
  then obtain r1 where w: "waitFor ?p r = Some r1" by blast
  then have p: "node_pending r1 = node_pending r"
    using waitFor_Some [of ?p r r1] by blast
  with assms have "node_buf r1 = []" by (simp add: node_pending_def)
  with w assms show ?thesis by (simp add: node_readExact_def)
qed

text \<open>
  Fewer than \<open>n\<close> bytes, but at least one: the predicate of \<open>readExact\<close> asks for an
  empty buffer at the end of the stream, so it is false for good.
\<close>

lemma node_readExact_short_hangs:
  assumes "node_pending r \<noteq> []" and "length (node_pending r) < n"
  shows "node_readExact n r = None"
proof -
  let ?p = "\<lambda>s. length (node_buf s) \<ge> n \<or> length (node_buf s) = 0 \<and> readableEnded s"
  have "waitFor ?p r = None"
  proof (rule waitFor_None)
    fix s assume p: "node_pending s = node_pending r"
    have "length (node_buf s) \<le> length (node_pending s)"
      using node_buf_prefix_pending [of s] by (rule prefix_length_le)
    with p assms have a: "\<not> length (node_buf s) \<ge> n" by simp
    have b: "\<not> (length (node_buf s) = 0 \<and> readableEnded s)"
    proof
      assume "length (node_buf s) = 0 \<and> readableEnded s"
      then have "node_pending s = []" by (simp add: node_pending_def)
      with p assms show False by simp
    qed
    from a b show "\<not> ?p s" by blast
  qed
  then show ?thesis by (simp add: node_readExact_def)
qed

lemma node_readUntilCRLF_found:
  assumes "indexOfCRLF (node_pending r) = int k"
  shows "\<exists>r'. node_readUntilCRLF r = Some (Inr (take (k + 2) (node_pending r)), r') \<and>
              node_pending r' = drop (k + 2) (node_pending r)"
proof -
  let ?p = "\<lambda>s. indexOfCRLF (node_buf s) \<ge> 0 \<or> (length (node_buf s) = 0 \<and> readableEnded s)"
  have "\<exists>r1. waitFor ?p r = Some r1"
  proof (rule waitFor_returns)
    fix s assume "node_pending s = node_pending r" and "readableEnded s"
    with assms show "?p s" by (simp add: node_done_pending)
  qed
  then obtain r1 where w: "waitFor ?p r = Some r1" by blast
  then have pr: "?p r1" and p: "node_pending r1 = node_pending r"
    using waitFor_Some [of ?p r r1] by blast+
  obtain ys where ys: "node_pending r1 = node_buf r1 @ ys"
    using node_buf_prefix_pending [of r1] by (auto simp: prefix_def)
  have "indexOfCRLF (node_buf r1) \<noteq> - 1"
  proof
    assume a: "indexOfCRLF (node_buf r1) = - 1"
    with pr have "length (node_buf r1) = 0 \<and> readableEnded r1" by simp
    then have "node_pending r1 = node_buf r1" by (simp add: node_done_pending)
    with a p assms show False by simp
  qed
  then obtain j where j: "indexOfCRLF (node_buf r1) = int j"
    using indexOfCRLF_cases [of "node_buf r1"] by auto
  then have "indexOfCRLF (node_buf r1 @ ys) = int j" by (rule indexOfCRLF_append)
  with ys p assms have jk: "j = k" by simp
  from j jk have len: "k + 2 \<le> length (node_buf r1)"
    using indexOfCRLF_bound [of "node_buf r1" k] by simp
  have n: "nat (int k + 2) = k + 2" by simp
  from w j jk have res: "node_readUntilCRLF r =
      Some (Inr (take (k + 2) (node_buf r1)), r1\<lparr>node_buf := drop (k + 2) (node_buf r1)\<rparr>)"
    by (simp add: node_readUntilCRLF_def Let_def n)
  from len ys p have t: "take (k + 2) (node_buf r1) = take (k + 2) (node_pending r)"
    by (metis take_append diff_is_0_eq take_0 append_Nil2)
  have "node_pending (r1\<lparr>node_buf := drop (k + 2) (node_buf r1)\<rparr>) = drop (k + 2) (node_buf r1) @ ys"
    using ys by (auto simp: node_pending_def)
  also have "\<dots> = drop (k + 2) (node_pending r)"
    using len ys p by (metis drop_append diff_is_0_eq drop_0)
  finally show ?thesis using res t by simp
qed

lemma node_readUntilCRLF_empty:
  assumes "node_pending r = []"
  shows "\<exists>r'. node_readUntilCRLF r = Some (Inl UnexpectedEOF, r')"
proof -
  let ?p = "\<lambda>s. indexOfCRLF (node_buf s) \<ge> 0 \<or> (length (node_buf s) = 0 \<and> readableEnded s)"
  have "\<exists>r1. waitFor ?p r = Some r1"
  proof (rule waitFor_returns)
    fix s assume "node_pending s = node_pending r" and "readableEnded s"
    with assms show "?p s" by (simp add: node_done_pending)
  qed
  then obtain r1 where w: "waitFor ?p r = Some r1" by blast
  then have p: "node_pending r1 = node_pending r"
    using waitFor_Some [of ?p r r1] by blast
  with assms have e: "node_buf r1 = []" by (simp add: node_pending_def)
  have "indexOfCRLF [] = - 1" by (simp add: indexOfCRLF_none crlf_at_def)
  with w e show ?thesis by (simp add: node_readUntilCRLF_def Let_def)
qed

text \<open>
  No delimiter, but at least one byte: the predicate of \<open>readUntilCRLF\<close> asks for an
  empty buffer at the end of the stream, so it is false for good.
\<close>

lemma node_readUntilCRLF_undelimited_hangs:
  assumes "node_pending r \<noteq> []" and "indexOfCRLF (node_pending r) = - 1"
  shows "node_readUntilCRLF r = None"
proof -
  let ?p = "\<lambda>s. indexOfCRLF (node_buf s) \<ge> 0 \<or> (length (node_buf s) = 0 \<and> readableEnded s)"
  have "waitFor ?p r = None"
  proof (rule waitFor_None)
    fix s assume p: "node_pending s = node_pending r"
    obtain ys where ys: "node_pending s = node_buf s @ ys"
      using node_buf_prefix_pending [of s] by (auto simp: prefix_def)
    with p assms have "indexOfCRLF (node_buf s) = - 1"
      using indexOfCRLF_append_none [of "node_buf s" ys] by simp
    then have a: "\<not> indexOfCRLF (node_buf s) \<ge> 0" by simp
    have b: "\<not> (length (node_buf s) = 0 \<and> readableEnded s)"
    proof
      assume "length (node_buf s) = 0 \<and> readableEnded s"
      then have "node_pending s = []" by (simp add: node_pending_def)
      with p assms show False by simp
    qed
    from a b show "\<not> ?p s" by blast
  qed
  then show ?thesis by (simp add: node_readUntilCRLF_def)
qed

section \<open>Partial reads and sequences of reads\<close>

lemma readAvailable_pending:
  "returned (fst (readAvailable n r)) @ pending (snd (readAvailable n r)) = pending r"
proof -
  define r1 where "r1 = (if length (buf r) = 0 \<and> \<not> is_done r then pullOne r else r)"
  have p: "pending r1 = pending r" by (simp add: r1_def pending_pullOne)
  define m where "m = min n (length (buf r1))"
  have res: "readAvailable n r = (Inr (take m (buf r1)), r1\<lparr>buf := drop m (buf r1)\<rparr>)"
    by (simp add: readAvailable_def r1_def m_def Let_def)
  have "take m (buf r1) @ pending (r1\<lparr>buf := drop m (buf r1)\<rparr>) = pending r1"
    by (simp add: pending_def)
  with res p show ?thesis by simp
qed



lemma readExact_pending:
  "returned (fst (readExact n r)) @ pending (snd (readExact n r)) = pending r"
proof (cases "n \<le> length (pending r)")
  case True
  then show ?thesis by (simp add: readExact_enough)
next
  case False
  then have l: "length (pending r) < n" by simp
  then have "pending (snd (readExact n r)) = pending r"
    using readExact_short(2,3) [OF l] by (simp add: done_pending)
  with l show ?thesis by (simp add: readExact_short)
qed

lemma readUntilCRLF_pending:
  "returned (fst (readUntilCRLF r)) @ pending (snd (readUntilCRLF r)) = pending r"
proof (cases "indexOfCRLF (pending r) = - 1")
  case True
  then have "pending (snd (readUntilCRLF r)) = pending r"
    using readUntilCRLF_none(2,3) [OF True] by (simp add: done_pending)
  with True show ?thesis by (simp add: readUntilCRLF_none)
next
  case False
  then obtain k where "indexOfCRLF (pending r) = int k"
    using indexOfCRLF_cases [of "pending r"] by auto
  then show ?thesis by (simp add: readUntilCRLF_found)
qed

lemma run_op_pending: "returned (fst (run_op x r)) @ pending (snd (run_op x r)) = pending r"
proof (cases x)
  case (ReadExact n)
  then show ?thesis by (simp add: readExact_pending)
next
  case ReadUntilCRLF
  then show ?thesis by (simp add: readUntilCRLF_pending)
next
  case (ReadAvailable n)
  then show ?thesis by (simp add: readAvailable_pending)
qed

lemma run_ops_pending: "fst (run_ops xs r) @ pending (snd (run_ops xs r)) = pending r"
proof (induction xs arbitrary: r)
  case Nil
  show ?case by simp
next
  case (Cons x xs)
  have "fst (run_ops (x # xs) r) = returned (fst (run_op x r)) @ fst (run_ops xs (snd (run_op x r)))"
    by (simp add: split_beta)
  moreover have "snd (run_ops (x # xs) r) = snd (run_ops xs (snd (run_op x r)))"
    by (simp add: split_beta)
  ultimately show ?case
    using Cons.IH [of "snd (run_op x r)"] run_op_pending [of x r] by simp
qed

lemma pending_new: "pending (new_BufferedReader chunks) = concat chunks"
  by (simp add: pending_def new_BufferedReader_def)

lemma node_pending_new: "node_pending (new_NodeBufferedReader chunks) = concat chunks"
  by (simp add: node_pending_def new_NodeBufferedReader_def)

lemma node_readExact_pending:
  assumes "node_readExact n r = Some (res, r')"
  shows "returned res @ node_pending r' = node_pending r"
proof -
  let ?p = "\<lambda>s. length (node_buf s) \<ge> n \<or> length (node_buf s) = 0 \<and> readableEnded s"
  from assms obtain r1 where w: "waitFor ?p r = Some r1"
    by (auto simp: node_readExact_def split: option.splits)
  then have p: "node_pending r1 = node_pending r"
    using waitFor_Some [of ?p r r1] by blast
  have "returned res @ node_pending r' = node_pending r1"
  proof (cases "length (node_buf r1) < n")
    case True
    with assms w have "res = Inl UnexpectedEOF" and "r' = r1"
      by (simp_all add: node_readExact_def)
    then show ?thesis by simp
  next
    case False
    with assms w have "res = Inr (take n (node_buf r1))"
        and "r' = r1\<lparr>node_buf := drop n (node_buf r1)\<rparr>"
      by (simp_all add: node_readExact_def)
    then show ?thesis by (simp add: node_pending_def)
  qed
  with p show ?thesis by simp
qed

lemma node_readUntilCRLF_pending:
  assumes "node_readUntilCRLF r = Some (res, r')"
  shows "returned res @ node_pending r' = node_pending r"
proof -
  let ?p = "\<lambda>s. indexOfCRLF (node_buf s) \<ge> 0 \<or> (length (node_buf s) = 0 \<and> readableEnded s)"
  from assms obtain r1 where w: "waitFor ?p r = Some r1"
    by (auto simp: node_readUntilCRLF_def split: option.splits)
  then have p: "node_pending r1 = node_pending r"
    using waitFor_Some [of ?p r r1] by blast
  define m where "m = nat (indexOfCRLF (node_buf r1) + 2)"
  have "returned res @ node_pending r' = node_pending r1"
  proof (cases "indexOfCRLF (node_buf r1) < 0")
    case True
    with assms w have "res = Inl UnexpectedEOF" and "r' = r1"
      by (simp_all add: node_readUntilCRLF_def Let_def)
    then show ?thesis by simp
  next
    case False
    with assms w have "res = Inr (take m (node_buf r1))"
        and "r' = r1\<lparr>node_buf := drop m (node_buf r1)\<rparr>"
      by (simp_all add: node_readUntilCRLF_def Let_def m_def)
    then show ?thesis by (simp add: node_pending_def)
  qed
  with p show ?thesis by simp
qed

lemma node_readAvailable_wait:
  "\<exists>r1. waitFor (\<lambda>s. length (node_buf s) > 0 \<or> readableEnded s) r = Some r1"
  by (rule waitFor_returns) simp

lemma node_readAvailable_returns:
  "\<exists>out r'. node_readAvailable n r = Some (Inr out, r') \<and>
     out @ node_pending r' = node_pending r \<and>
     (out = [] \<longrightarrow> n = 0 \<or> readableEnded r')"
proof -
  let ?p = "\<lambda>s. length (node_buf s) > 0 \<or> readableEnded s"
  have "\<exists>r1. (if length (node_buf r) = 0 then waitFor ?p r else Some r) = Some r1 \<and>
      node_pending r1 = node_pending r \<and> (node_buf r1 \<noteq> [] \<or> readableEnded r1)"
  proof (cases "length (node_buf r) = 0")
    case True
    obtain r1 where w: "waitFor ?p r = Some r1"
      using node_readAvailable_wait [of r] by blast
    then have "?p r1 \<and> node_pending r1 = node_pending r" by (rule waitFor_Some)
    with w True show ?thesis by auto
  next
    case False
    then show ?thesis by auto
  qed
  then obtain r1 where r1: "(if length (node_buf r) = 0 then waitFor ?p r else Some r) = Some r1"
      and p: "node_pending r1 = node_pending r"
      and c: "node_buf r1 \<noteq> [] \<or> readableEnded r1"
    by blast
  define m where "m = min n (length (node_buf r1))"
  from r1 have res: "node_readAvailable n r =
      Some (Inr (take m (node_buf r1)), r1\<lparr>node_buf := drop m (node_buf r1)\<rparr>)"
    by (simp add: node_readAvailable_def Let_def m_def)
  have "take m (node_buf r1) @ node_pending (r1\<lparr>node_buf := drop m (node_buf r1)\<rparr>) = node_pending r1"
    by (simp add: node_pending_def)
  with p have a: "take m (node_buf r1) @ node_pending (r1\<lparr>node_buf := drop m (node_buf r1)\<rparr>) = node_pending r"
    by simp
  have b: "take m (node_buf r1) = [] \<longrightarrow> n = 0 \<or> readableEnded (r1\<lparr>node_buf := drop m (node_buf r1)\<rparr>)"
    using c by (auto simp: m_def min_def split: if_splits)
  from res a b show ?thesis by blast
qed


lemma node_run_op_pending:
  assumes "node_run_op x r = Some (res, r')"
  shows "returned res @ node_pending r' = node_pending r"
proof (cases x)
  case (ReadExact n)
  with assms show ?thesis by (simp add: node_readExact_pending)
next
  case ReadUntilCRLF
  with assms show ?thesis by (simp add: node_readUntilCRLF_pending)
next
  case (ReadAvailable n)
  obtain out r1 where o: "node_readAvailable n r = Some (Inr out, r1)"
      and q: "out @ node_pending r1 = node_pending r"
    using node_readAvailable_returns [of n r] by blast
  with assms ReadAvailable show ?thesis by auto
qed

lemma node_run_steps_pending:
  "node_run_steps xs r = Some (out, r') \<Longrightarrow> out @ node_pending r' = node_pending r"
proof (induction xs r arbitrary: out r' rule: node_run_steps.induct)
  case (1 r)
  then show ?case by simp
next
  case (2 xs r)
  from "2.prems" have "node_run_steps xs (if readableEnded r then r else emit_next r) = Some (out, r')"
    by simp
  then have "out @ node_pending r' = node_pending (if readableEnded r then r else emit_next r)"
    by (rule "2.IH")
  then show ?case by (simp add: node_pending_emit_next split: if_splits)
next
  case (3 x xs r)
  from "3.prems" obtain res r1 out1 where
      a: "node_run_op x r = Some (res, r1)"
      and b: "node_run_steps xs r1 = Some (out1, r')"
      and c: "out = returned res @ out1"
    by (auto split: option.splits prod.splits)
  from a have "returned res @ node_pending r1 = node_pending r" by (rule node_run_op_pending)
  moreover from a b have "out1 @ node_pending r' = node_pending r1"
    using "3.IH" [of "(res, r1)" res r1 out1 r'] by simp
  ultimately show ?case using c by simp
qed

section \<open>Properties of the line parsers\<close>

lemma js_indexOf_absent: "c \<notin> set s \<Longrightarrow> js_indexOf c s = - 1"
  by (induction s) auto

lemma js_indexOf_first: "c \<notin> set pre \<Longrightarrow> js_indexOf c (pre @ c # post) = int (length pre)"
  by (induction pre) (auto simp: Let_def)

lemma header_of_no_colon:
  "CHR '':'' \<notin> set line \<Longrightarrow> header_of line len = Inl InvalidHeader"
  by (simp add: header_of_def js_indexOf_absent)

lemma header_of_colon:
  assumes "CHR '':'' \<notin> set pre"
  shows "header_of (pre @ CHR '':'' # post) len =
     Inr (Some \<lparr>name = js_toLowerCase (js_trim pre), header_value = js_trim post,
                totalBytes = len\<rparr>)"
proof -
  have i: "js_indexOf (CHR '':'') (pre @ CHR '':'' # post) = int (length pre)"
    using assms by (rule js_indexOf_first)
  have n: "nat (int (length pre) + 1) = length pre + 1" by simp
  show ?thesis
    unfolding header_of_def Let_def i n by simp
qed

lemma ascii_toString_id: "is_ascii s \<Longrightarrow> ascii_toString s = s"
  by (induction s) (auto simp: is_ascii_def ascii_toString_def)

lemma isDigit_not_space: "isDigit c \<Longrightarrow> \<not> isWhiteSpace c"
  by (auto simp: isDigit_def isWhiteSpace_def)

lemma isDigit_not_sign: "isDigit c \<Longrightarrow> c \<noteq> CHR ''+'' \<and> c \<noteq> CHR ''-''"
  by (auto simp: isDigit_def)

lemma takeWhile_run:
  assumes "list_all P ds" and "rest = [] \<or> \<not> P (hd rest)"
  shows "takeWhile P (ds @ rest) = ds"
proof -
  from assms(2) have "takeWhile P rest = []" by (simp add: takeWhile_eq_Nil_iff)
  with assms(1) show ?thesis by (simp add: list_all_iff)
qed

lemma parseInt_of_prefix:
  assumes "integer_prefix tok negative m"
  shows "parseInt (Some tok) = to_Number negative m"
proof -
  from assms obtain ws sg ds rest where
      tok: "tok = ws @ sg @ ds @ rest"
      and ws: "list_all isWhiteSpace ws"
      and sg: "sg = [] \<or> sg = ''+'' \<or> sg = ''-''"
      and ne: "ds \<noteq> []" and ds: "list_all isDigit ds"
      and rest: "rest = [] \<or> \<not> isDigit (hd rest)"
      and n: "negative = (sg = ''-'')" and m: "m = digits_value ds"
    unfolding integer_prefix_def by blast
  from ne obtain d ds' where d: "ds = d # ds'" by (cases ds) auto
  with ds have dd: "isDigit d" by simp
  have z: "takeWhile isDigit (ds @ rest) = ds" using ds rest by (rule takeWhile_run)
  have s0: "\<not> isWhiteSpace (hd (sg @ ds @ rest))" and s1: "sg @ ds @ rest \<noteq> []"
    using sg d dd isDigit_not_space [of d] by (auto simp: isWhiteSpace_def)
  have S: "dropWhile isWhiteSpace tok = sg @ ds @ rest"
  proof -
    have "dropWhile isWhiteSpace tok = dropWhile isWhiteSpace (sg @ ds @ rest)"
      unfolding tok using ws by (simp add: list_all_iff)
    also have "\<dots> = sg @ ds @ rest"
      using s0 s1 by (simp add: dropWhile_eq_self_iff)
    finally show ?thesis .
  qed
  have sgn: "(sg @ ds @ rest \<noteq> [] \<and> hd (sg @ ds @ rest) = CHR ''-'') = (sg = ''-'')"
    using sg d isDigit_not_sign [OF dd] by auto
  have strip: "(if sg @ ds @ rest \<noteq> [] \<and>
        (hd (sg @ ds @ rest) = CHR ''+'' \<or> hd (sg @ ds @ rest) = CHR ''-'')
      then tl (sg @ ds @ rest) else sg @ ds @ rest) = ds @ rest"
    using sg d isDigit_not_sign [OF dd] by auto
  have "parseInt (Some tok) =
      (if ds = [] then NaN else to_Number (sg = ''-'') (digits_value ds))"
    by (simp only: parseInt_def Let_def option.case S sgn strip z)
  with ne n m show ?thesis by simp
qed

lemma prefix_of_parseInt:
  assumes "parseInt (Some tok) \<noteq> NaN"
  shows "\<exists>negative m. integer_prefix tok negative m"
proof -
  define ws where "ws = takeWhile isWhiteSpace tok"
  define S where "S = dropWhile isWhiteSpace tok"
  define sg where "sg = (if S \<noteq> [] \<and> (hd S = CHR ''+'' \<or> hd S = CHR ''-'') then [hd S] else [])"
  define S' where "S' = (if S \<noteq> [] \<and> (hd S = CHR ''+'' \<or> hd S = CHR ''-'') then tl S else S)"
  define Z where "Z = takeWhile isDigit S'"
  define rest where "rest = dropWhile isDigit S'"
  have "parseInt (Some tok) =
      (if Z = [] then NaN else to_Number (S \<noteq> [] \<and> hd S = CHR ''-'') (digits_value Z))"
    by (simp only: parseInt_def Let_def option.case Z_def S'_def S_def)
  with assms have zne: "Z \<noteq> []" by (cases "Z = []") simp_all
  have t1: "tok = ws @ S" by (simp add: ws_def S_def)
  have t2: "S = sg @ S'" by (auto simp: sg_def S'_def)
  have t3: "S' = Z @ rest" by (simp add: Z_def rest_def)
  have a: "list_all isWhiteSpace ws"
    unfolding ws_def list_all_iff by (metis set_takeWhileD)
  have b: "sg = [] \<or> sg = ''+'' \<or> sg = ''-''" by (auto simp: sg_def)
  have c: "list_all isDigit Z"
    unfolding Z_def list_all_iff by (metis set_takeWhileD)
  have d: "rest = [] \<or> \<not> isDigit (hd rest)"
    unfolding rest_def using hd_dropWhile [of isDigit S'] by blast
  from t1 t2 t3 have "tok = ws @ sg @ Z @ rest" by simp
  with a b zne c d have "integer_prefix tok (sg = ''-'') (digits_value Z)"
    unfolding integer_prefix_def by blast
  then show ?thesis by blast
qed

lemma to_Number_not_NaN: "to_Number negative m \<noteq> NaN"
  by (simp add: to_Number_def Let_def)

lemma parseInt_NaN_iff:
  "parseInt (Some tok) = NaN \<longleftrightarrow> (\<forall>negative m. \<not> integer_prefix tok negative m)"
proof
  assume n: "parseInt (Some tok) = NaN"
  show "\<forall>negative m. \<not> integer_prefix tok negative m"
  proof (intro allI notI)
    fix negative m
    assume "integer_prefix tok negative m"
    then have "parseInt (Some tok) = to_Number negative m" by (rule parseInt_of_prefix)
    with n show False using to_Number_not_NaN [of negative m] by simp
  qed
next
  assume a: "\<forall>negative m. \<not> integer_prefix tok negative m"
  show "parseInt (Some tok) = NaN"
  proof (rule ccontr)
    assume "parseInt (Some tok) \<noteq> NaN"
    then have "\<exists>negative m. integer_prefix tok negative m" by (rule prefix_of_parseInt)
    with a show False by blast
  qed
qed

lemma parseInt_undefined: "parseInt None = NaN"
  by (simp add: parseInt_def isWhiteSpace_def isDigit_def)

text \<open>The value of a digit string is its value in base ten.\<close>

lemma digits_value_snoc:
  "digits_value (ds @ [d]) = digits_value ds * 10 + ((of_char d :: int) - 48)"
  by (simp add: digits_value_def)

text \<open>Up to \<open>2 ^ 53\<close> the number is the integer itself.\<close>

lemma round_to_double_exact: "m \<le> 2 ^ 53 \<Longrightarrow> round_to_double m = m"
proof (cases "m < 2 ^ 53")
  case True
  then show ?thesis by (simp add: round_to_double_def)
next
  case False
  moreover assume "m \<le> 2 ^ 53"
  ultimately have m: "m = 2 ^ 53" by simp
  have "round_to_double (2 ^ 53) = 2 ^ 53" by code_simp
  with m show ?thesis by simp
qed

lemma to_Number_exact:
  assumes "0 < m" and "m \<le> 2 ^ 53"
  shows "to_Number negative m = Num (if negative then - m else m)"
proof -
  have "(2::int) ^ 53 < 2 ^ 1024" by (rule power_strict_increasing) simp_all
  with assms(2) have "\<not> m \<ge> 2 ^ 1024" by simp
  with assms show ?thesis
    by (simp add: to_Number_def Let_def round_to_double_exact)
qed

text \<open>\<open>trim\<close> removes white space from both ends, and nothing else.\<close>

lemma js_trim_surrounding:
  "\<exists>a b. s = a @ js_trim s @ b \<and> list_all isWhiteSpace a \<and> list_all isWhiteSpace b \<and>
     (js_trim s = [] \<or> (\<not> isWhiteSpace (hd (js_trim s)) \<and> \<not> isWhiteSpace (last (js_trim s))))"
proof -
  define a where "a = takeWhile isWhiteSpace s"
  define t where "t = dropWhile isWhiteSpace s"
  define b where "b = rev (takeWhile isWhiteSpace (rev t))"
  define m where "m = rev (dropWhile isWhiteSpace (rev t))"
  have m: "js_trim s = m" by (simp add: js_trim_def m_def t_def)
  have "rev (rev t) = rev (takeWhile isWhiteSpace (rev t) @ dropWhile isWhiteSpace (rev t))"
    by (simp only: takeWhile_dropWhile_id)
  then have tm: "t = m @ b"
    unfolding m_def b_def by (simp only: rev_rev_ident rev_append)
  have "s = a @ t" by (simp add: a_def t_def)
  with tm have s: "s = a @ m @ b" by simp
  have wa: "list_all isWhiteSpace a"
    unfolding a_def list_all_iff by (metis set_takeWhileD)
  have wb: "list_all isWhiteSpace b"
    unfolding b_def list_all_iff set_rev by (metis set_takeWhileD)
  have e: "\<not> isWhiteSpace (hd m) \<and> \<not> isWhiteSpace (last m)" if ne: "m \<noteq> []"
  proof
    from ne have "dropWhile isWhiteSpace (rev t) \<noteq> []" by (simp add: m_def)
    then have "\<not> isWhiteSpace (hd (dropWhile isWhiteSpace (rev t)))" by (rule hd_dropWhile)
    with ne show "\<not> isWhiteSpace (last m)" by (simp add: m_def last_rev)
    from ne tm have "t \<noteq> []" by (cases m) auto
    then have "\<not> isWhiteSpace (hd t)" unfolding t_def by (rule hd_dropWhile)
    moreover from ne have "hd (m @ b) = hd m" by (rule hd_append2)
    ultimately show "\<not> isWhiteSpace (hd m)" using tm by metis
  qed
  have "s = a @ m @ b \<and> list_all isWhiteSpace a \<and> list_all isWhiteSpace b \<and>
      (m = [] \<or> (\<not> isWhiteSpace (hd m) \<and> \<not> isWhiteSpace (last m)))"
    using s wa wb e by (intro conjI) auto
  then show ?thesis unfolding m by (intro exI)
qed

text \<open>A complete line at the head of the bytes to come is what \<open>readUntilCRLF\<close> returns.\<close>

lemma first_crlf_line:
  assumes "first_crlf (line @ CRLF) (length line)"
  shows "indexOfCRLF (line @ CRLF @ after) = int (length line)"
proof -
  from assms have "indexOfCRLF (line @ CRLF) = int (length line)"
    by (simp add: first_crlf_def indexOfCRLF_found)
  then have "indexOfCRLF ((line @ CRLF) @ after) = int (length line)"
    by (rule indexOfCRLF_append)
  then show ?thesis by simp
qed

lemma readUntilCRLF_line:
  assumes "pending r = line @ CRLF @ after" and "first_crlf (line @ CRLF) (length line)"
  shows "fst (readUntilCRLF r) = Inr (line @ CRLF)"
    and "pending (snd (readUntilCRLF r)) = after"
proof -
  have i: "indexOfCRLF (pending r) = int (length line)"
    unfolding assms(1) using assms(2) by (rule first_crlf_line)
  have l: "length CRLF = 2" by (simp add: CRLF_def)
  from readUntilCRLF_found(1) [OF i] l
  show "fst (readUntilCRLF r) = Inr (line @ CRLF)" by (simp add: assms(1))
  from readUntilCRLF_found(2) [OF i] l
  show "pending (snd (readUntilCRLF r)) = after" by (simp add: assms(1))
qed

lemma node_readUntilCRLF_line:
  assumes "node_pending r = line @ CRLF @ after" and "first_crlf (line @ CRLF) (length line)"
  shows "\<exists>r'. node_readUntilCRLF r = Some (Inr (line @ CRLF), r') \<and> node_pending r' = after"
proof -
  have i: "indexOfCRLF (node_pending r) = int (length line)"
    unfolding assms(1) using assms(2) by (rule first_crlf_line)
  have l: "length CRLF = 2" by (simp add: CRLF_def)
  from node_readUntilCRLF_found [OF i] l
  show ?thesis by (simp add: assms(1))
qed

lemma line_of_delimited: "take (length (line @ CRLF) - 2) (line @ CRLF) = line"
  by (simp add: CRLF_def)

lemma length_delimited: "length (line @ CRLF) = length line + 2"
  by (simp add: CRLF_def)

section \<open>The claims\<close>

lemma first_crlf_index: "first_crlf b k \<longleftrightarrow> indexOfCRLF b = int k"
  by (simp add: first_crlf_def indexOfCRLF_found)

text \<open>Every byte sequence that holds a delimiter has a first one.\<close>

lemma first_crlf_exists: "crlf_at b j \<Longrightarrow> \<exists>k. first_crlf b k"
  using exists_least_iff [of "crlf_at b"] by (auto simp: first_crlf_def)

lemma indexOfCRLF_no_CR:
  assumes "CR \<notin> set b"
  shows "indexOfCRLF b = - 1"
proof -
  have "\<not> crlf_at b j" for j
  proof
    assume "crlf_at b j"
    then have "j < length b" and "b ! j = CR" by (simp_all add: crlf_at_def)
    then have "CR \<in> set b" by (metis nth_mem)
    with assms show False by simp
  qed
  then show ?thesis by (simp add: indexOfCRLF_none)
qed

text \<open>
  Claim C1, as amended. \<open>readUntilCRLF\<close> has no bound on the length of a line and no
  "line too long" error. When the bytes still to come hold no delimiter, the web reader
  buffers every one of them, however many, and fails with \<open>Unexpected EOF\<close> only once
  the stream has ended; and \<open>Unexpected EOF\<close> is the only error that \<open>readUntilCRLF\<close>
  raises in either port.
\<close>

theorem readUntilCRLF_buffers_whole_stream:
  "((\<forall>j. \<not> crlf_at (pending r) j) \<longrightarrow>
      fst (readUntilCRLF r) = Inl UnexpectedEOF \<and>
      buf (snd (readUntilCRLF r)) = pending r \<and>
      is_done (snd (readUntilCRLF r))) \<and>
   (fst (readUntilCRLF r) = Inl e \<longrightarrow> e = UnexpectedEOF) \<and>
   (node_readUntilCRLF nr = Some (Inl e', nr') \<longrightarrow> e' = UnexpectedEOF)"
proof (intro conjI impI)
  assume "\<forall>j. \<not> crlf_at (pending r) j"
  then have n: "indexOfCRLF (pending r) = - 1" by (simp add: indexOfCRLF_none)
  show "fst (readUntilCRLF r) = Inl UnexpectedEOF" using n by (rule readUntilCRLF_none)
  show "buf (snd (readUntilCRLF r)) = pending r" using n by (rule readUntilCRLF_none)
  show "is_done (snd (readUntilCRLF r))" using n by (rule readUntilCRLF_none)
next
  assume "fst (readUntilCRLF r) = Inl e"
  then show "e = UnexpectedEOF"
    by (auto simp: readUntilCRLF_def Let_def split: if_splits)
next
  assume "node_readUntilCRLF nr = Some (Inl e', nr')"
  then show "e' = UnexpectedEOF"
    by (auto simp: node_readUntilCRLF_def Let_def split: option.splits if_splits)
qed

theorem readUntilCRLF_buffers_whole_stream_witness:
  "fst (readUntilCRLF (new_BufferedReader [''ab'', ''c''])) = Inl UnexpectedEOF \<and>
   buf (snd (readUntilCRLF (new_BufferedReader [''ab'', ''c'']))) = ''abc'' \<and>
   is_done (snd (readUntilCRLF (new_BufferedReader [''ab'', ''c'']))) \<and>
   node_readUntilCRLF (new_NodeBufferedReader []) =
     Some (Inl UnexpectedEOF, \<lparr>socket = [], readableEnded = True, node_buf = []\<rparr>)"
proof -
  have p: "pending (new_BufferedReader [''ab'', ''c'']) = ''abc''"
    by (simp add: pending_new)
  have "indexOfCRLF ''abc'' = - 1" by code_simp
  then have h1: "\<forall>j. \<not> crlf_at (pending (new_BufferedReader [''ab'', ''c''])) j"
    by (simp add: p indexOfCRLF_none)
  have h2: "fst (readUntilCRLF (new_BufferedReader [''ab'', ''c''])) = Inl UnexpectedEOF"
    by code_simp
  have h3: "node_readUntilCRLF (new_NodeBufferedReader []) =
      Some (Inl UnexpectedEOF, \<lparr>socket = [], readableEnded = True, node_buf = []\<rparr>)"
    by code_simp
  from h1 h2 h3 p
    readUntilCRLF_buffers_whole_stream
      [of "new_BufferedReader [''ab'', ''c'']" UnexpectedEOF "new_NodeBufferedReader []"
          UnexpectedEOF "\<lparr>socket = [], readableEnded = True, node_buf = []\<rparr>"]
  show ?thesis by simp
qed

theorem readUntilCRLF_line_bound_counterexample:
  "fst (readUntilCRLF (new_BufferedReader [replicate (Suc MAX_MESSAGE_SIZE) (CHR ''A''), ''B''])) =
     Inl UnexpectedEOF \<and>
   buf (snd (readUntilCRLF (new_BufferedReader [replicate (Suc MAX_MESSAGE_SIZE) (CHR ''A''), ''B'']))) =
     replicate (Suc MAX_MESSAGE_SIZE) (CHR ''A'') @ ''B'' \<and>
   MAX_MESSAGE_SIZE <
     length (buf (snd (readUntilCRLF (new_BufferedReader [replicate (Suc MAX_MESSAGE_SIZE) (CHR ''A''), ''B'']))))"
proof -
  let ?r = "new_BufferedReader [replicate (Suc MAX_MESSAGE_SIZE) (CHR ''A''), ''B'']"
  have p: "pending ?r = replicate (Suc MAX_MESSAGE_SIZE) (CHR ''A'') @ ''B''"
    by (simp only: pending_new concat.simps append_Nil2)
  have "CR \<notin> set (replicate (Suc MAX_MESSAGE_SIZE) (CHR ''A'') @ ''B'')"
    by (auto simp: CR_def)
  then have n: "indexOfCRLF (pending ?r) = - 1"
    unfolding p by (rule indexOfCRLF_no_CR)
  have a: "fst (readUntilCRLF ?r) = Inl UnexpectedEOF" using n by (rule readUntilCRLF_none)
  have b: "buf (snd (readUntilCRLF ?r)) = replicate (Suc MAX_MESSAGE_SIZE) (CHR ''A'') @ ''B''"
    using readUntilCRLF_none(2) [OF n] p by (simp only:)
  have c: "MAX_MESSAGE_SIZE < length (buf (snd (readUntilCRLF ?r)))"
    unfolding b by (simp only: length_append length_replicate)
  from a b c show ?thesis by (intro conjI)
qed

text \<open>
  Claim C2, at the failing input. The socket emits the three bytes \<open>abc\<close> and then
  ends. The Node \<open>readUntilCRLF\<close> is never resumed; the web \<open>readUntilCRLF\<close> on the same
  stream fails with \<open>Unexpected EOF\<close>.
\<close>

theorem node_readUntilCRLF_undelimited_bytes_hang:
  "node_readUntilCRLF (new_NodeBufferedReader [''abc'']) = None \<and>
   fst (readUntilCRLF (new_BufferedReader [''abc''])) = Inl UnexpectedEOF"
  by (rule conjI; code_simp)

text \<open>
  Claim C3, at the failing input. The socket emits the three bytes \<open>abc\<close> and then
  ends. The Node \<open>readExact(5)\<close> is never resumed; the web \<open>readExact(5)\<close> on the same
  stream fails with \<open>Unexpected EOF\<close>.
\<close>

theorem node_readExact_short_stream_hang:
  "node_readExact 5 (new_NodeBufferedReader [''abc'']) = None \<and>
   fst (readExact 5 (new_BufferedReader [''abc''])) = Inl UnexpectedEOF"
  by (rule conjI; code_simp)

text \<open>
  Claim C4. Let \<open>bs\<close> hold a delimiter, the first one at position \<open>k\<close>, and let
  \<open>chunks1\<close> and \<open>chunks2\<close> be two ways of cutting \<open>bs\<close> into chunks, wherever the cuts
  fall. In both ports \<open>readUntilCRLF\<close> on a new reader returns the first \<open>k + 2\<close> bytes
  of \<open>bs\<close> under either cutting, and what is left for later reads is \<open>bs\<close> without
  those bytes.
\<close>

theorem readUntilCRLF_chunking_invariant:
  assumes "concat chunks1 = bs" and "concat chunks2 = bs" and "first_crlf bs k"
  shows "fst (readUntilCRLF (new_BufferedReader chunks1)) = Inr (take (k + 2) bs) \<and>
         fst (readUntilCRLF (new_BufferedReader chunks2)) = Inr (take (k + 2) bs) \<and>
         pending (snd (readUntilCRLF (new_BufferedReader chunks1))) = drop (k + 2) bs \<and>
         pending (snd (readUntilCRLF (new_BufferedReader chunks2))) = drop (k + 2) bs \<and>
         (\<exists>r1 r2.
            node_readUntilCRLF (new_NodeBufferedReader chunks1) = Some (Inr (take (k + 2) bs), r1) \<and>
            node_pending r1 = drop (k + 2) bs \<and>
            node_readUntilCRLF (new_NodeBufferedReader chunks2) = Some (Inr (take (k + 2) bs), r2) \<and>
            node_pending r2 = drop (k + 2) bs)"
proof -
  from assms have i1: "indexOfCRLF (pending (new_BufferedReader chunks1)) = int k"
    and i2: "indexOfCRLF (pending (new_BufferedReader chunks2)) = int k"
    and n1: "indexOfCRLF (node_pending (new_NodeBufferedReader chunks1)) = int k"
    and n2: "indexOfCRLF (node_pending (new_NodeBufferedReader chunks2)) = int k"
    by (simp_all add: pending_new node_pending_new first_crlf_index)
  have p1: "pending (new_BufferedReader chunks1) = bs"
    and p2: "pending (new_BufferedReader chunks2) = bs"
    and q1: "node_pending (new_NodeBufferedReader chunks1) = bs"
    and q2: "node_pending (new_NodeBufferedReader chunks2) = bs"
    using assms by (simp_all add: pending_new node_pending_new)
  note w1 = readUntilCRLF_found [OF i1, unfolded p1]
  note w2 = readUntilCRLF_found [OF i2, unfolded p2]
  from node_readUntilCRLF_found [OF n1] q1 obtain r1 where
    a1: "node_readUntilCRLF (new_NodeBufferedReader chunks1) = Some (Inr (take (k + 2) bs), r1)"
    and b1: "node_pending r1 = drop (k + 2) bs" by auto
  from node_readUntilCRLF_found [OF n2] q2 obtain r2 where
    a2: "node_readUntilCRLF (new_NodeBufferedReader chunks2) = Some (Inr (take (k + 2) bs), r2)"
    and b2: "node_pending r2 = drop (k + 2) bs" by auto
  from w1 w2 a1 b1 a2 b2 show ?thesis by blast
qed

theorem readUntilCRLF_chunking_invariant_witness:
  "fst (readUntilCRLF (new_BufferedReader [''ab'' @ [CR], LF # ''cd''])) = Inr (''ab'' @ CRLF) \<and>
   fst (readUntilCRLF (new_BufferedReader [''a'', ''b'' @ CRLF @ ''cd''])) = Inr (''ab'' @ CRLF) \<and>
   pending (snd (readUntilCRLF (new_BufferedReader [''ab'' @ [CR], LF # ''cd'']))) = ''cd'' \<and>
   pending (snd (readUntilCRLF (new_BufferedReader [''a'', ''b'' @ CRLF @ ''cd'']))) = ''cd''"
proof -
  have c1: "concat [''ab'' @ [CR], LF # ''cd''] = ''ab'' @ CRLF @ ''cd''"
    by (simp add: CRLF_def)
  have c2: "concat [''a'', ''b'' @ CRLF @ ''cd''] = ''ab'' @ CRLF @ ''cd''"
    by simp
  have "indexOfCRLF (''ab'' @ CRLF @ ''cd'') = int 2" by code_simp
  then have f: "first_crlf (''ab'' @ CRLF @ ''cd'') 2" by (simp only: first_crlf_index)
  from readUntilCRLF_chunking_invariant [OF c1 c2 f]
  show ?thesis by (simp add: CRLF_def)
qed

text \<open>
  Claim C7. In both ports \<open>requestNoBody\<close> hands the transport four chunks, in this
  order: the request line, the \<open>host\<close> header, the \<open>user-agent\<close> header (with
  \<open>yo-gurt/0.1\<close> when no user agent is given) and the bare delimiter. For
  \<open>requestNoBody(GET, "/api/data", "example.com")\<close> on a transport that has received
  nothing yet, the bytes on the wire are exactly the frame of the specification.
\<close>

theorem requestNoBody_frame:
  "writer (client_writer (requestNoBody method path host userAgent c)) =
     writer (client_writer c) @
       [method_string method @ '' '' @ path @ '' '' @ GURT_VERSION @ CRLF,
        ''host: '' @ host @ CRLF,
        ''user-agent: '' @ (case userAgent of None \<Rightarrow> ''yo-gurt/0.1'' | Some u \<Rightarrow> u) @ CRLF,
        CRLF] \<and>
   node_socket_written (node_requestNoBody method path host userAgent nc) =
     node_socket_written nc @
       [method_string method @ '' '' @ path @ '' '' @ GURT_VERSION @ CRLF,
        ''host: '' @ host @ CRLF,
        ''user-agent: '' @ (case userAgent of None \<Rightarrow> ''yo-gurt/0.1'' | Some u \<Rightarrow> u) @ CRLF,
        CRLF] \<and>
   wire (requestNoBody Get ''/api/data'' ''example.com'' None
           (fst (new_GurtClient \<lparr>readable = rd, writable = []\<rparr> store))) =
     ''GET /api/data GURT/1.0.0'' @ CRLF @ ''host: example.com'' @ CRLF @
     ''user-agent: yo-gurt/0.1'' @ CRLF @ CRLF \<and>
   node_wire (node_requestNoBody Get ''/api/data'' ''example.com'' None
           (fst (new_NodeGurtClient \<lparr>readable_side = rd, writable_side = []\<rparr> nstore))) =
     ''GET /api/data GURT/1.0.0'' @ CRLF @ ''host: example.com'' @ CRLF @
     ''user-agent: yo-gurt/0.1'' @ CRLF @ CRLF"
proof (intro conjI)
  show "writer (client_writer (requestNoBody method path host userAgent c)) =
     writer (client_writer c) @
       [method_string method @ '' '' @ path @ '' '' @ GURT_VERSION @ CRLF,
        ''host: '' @ host @ CRLF,
        ''user-agent: '' @ (case userAgent of None \<Rightarrow> ''yo-gurt/0.1'' | Some u \<Rightarrow> u) @ CRLF,
        CRLF]"
    by (simp add: requestNoBody_def writeAll_def writer_write_def Let_def)
  show "node_socket_written (node_requestNoBody method path host userAgent nc) =
     node_socket_written nc @
       [method_string method @ '' '' @ path @ '' '' @ GURT_VERSION @ CRLF,
        ''host: '' @ host @ CRLF,
        ''user-agent: '' @ (case userAgent of None \<Rightarrow> ''yo-gurt/0.1'' | Some u \<Rightarrow> u) @ CRLF,
        CRLF]"
    by (simp add: node_requestNoBody_def node_writeAll_def Let_def)
  show "wire (requestNoBody Get ''/api/data'' ''example.com'' None
           (fst (new_GurtClient \<lparr>readable = rd, writable = []\<rparr> store))) =
     ''GET /api/data GURT/1.0.0'' @ CRLF @ ''host: example.com'' @ CRLF @
     ''user-agent: yo-gurt/0.1'' @ CRLF @ CRLF"
    by (simp add: wire_def requestNoBody_def writeAll_def writer_write_def Let_def
        new_GurtClient_def new_StreamWriter_def GURT_VERSION_def)
  show "node_wire (node_requestNoBody Get ''/api/data'' ''example.com'' None
           (fst (new_NodeGurtClient \<lparr>readable_side = rd, writable_side = []\<rparr> nstore))) =
     ''GET /api/data GURT/1.0.0'' @ CRLF @ ''host: example.com'' @ CRLF @
     ''user-agent: yo-gurt/0.1'' @ CRLF @ CRLF"
    by (simp add: node_wire_def node_requestNoBody_def node_writeAll_def Let_def
        new_NodeGurtClient_def GURT_VERSION_def)
qed









text \<open>
  Streams that deliver a zero-length chunk are outside the last part of the statement
  above. The web \<open>readAvailable\<close> pulls one chunk at most, so on the chunks \<open>[]\<close>, \<open>abc\<close>
  it returns no bytes before the end of the stream; the Node \<open>readAvailable\<close> waits
  until bytes are buffered or the stream has ended, and returns \<open>abc\<close>.
\<close>

lemma readAvailable_zero_length_chunk:
  "readAvailable 10 (new_BufferedReader [[], ''abc'']) =
     (Inr [], \<lparr>reader = [''abc''], buf = [], is_done = False\<rparr>) \<and>
   node_readAvailable 10 (new_NodeBufferedReader [[], ''abc'']) =
     Some (Inr ''abc'', \<lparr>socket = [], readableEnded = False, node_buf = []\<rparr>)"
  by (intro conjI; code_simp)

lemma reads_through_new_reader:
  assumes "store' ! ref = new_BufferedReader chunks"
  shows "prefix (fst (reads_through xs \<lparr>rr_reader = ref\<rparr> store')) (concat chunks)"
proof -
  have "fst (run_ops xs (new_BufferedReader chunks)) @
      pending (snd (run_ops xs (new_BufferedReader chunks))) = concat chunks"
    by (simp add: run_ops_pending pending_new)
  then have "prefix (fst (run_ops xs (new_BufferedReader chunks))) (concat chunks)"
    by (metis prefixI)
  with assms show ?thesis by (simp add: reads_through_def split_beta)
qed

lemma node_reads_through_new_reader:
  assumes "store' ! ref = new_NodeBufferedReader chunks"
    and "node_reads_through steps \<lparr>node_rr_reader = ref\<rparr> store' = Some (out, st)"
  shows "prefix out (concat chunks)"
proof -
  from assms obtain r' where "node_run_steps steps (new_NodeBufferedReader chunks) = Some (out, r')"
    by (auto simp: node_reads_through_def split: option.splits)
  then have "out @ node_pending r' = concat chunks"
    using node_run_steps_pending [of steps _ out r'] by (simp add: node_pending_new)
  then show ?thesis by (metis prefixI)
qed

text \<open>
  Claim C9, as amended. \<open>setTransport\<close> (web) and \<open>setSocket\<close> (Node) make the client
  refer to a new reader on the new transport, with an empty buffer, whatever the old
  reader had buffered. So every sequence of reads made through a response reader
  obtained from the client after the swap returns a prefix of the bytes of the new
  transport. The old reader object is left as it was, and a response reader obtained
  before the swap still refers to it: reads through that one return after the swap
  what they would have returned without it.
\<close>

theorem setTransport_discards_buffer:
  assumes "client_reader c < length store" and "node_reader nc < length nstore"
  shows
  "snd (setTransport t c store) ! client_reader (fst (setTransport t c store)) =
     new_BufferedReader (readable t) \<and>
   buf (snd (setTransport t c store) ! client_reader (fst (setTransport t c store))) = [] \<and>
   prefix (fst (reads_through xs (responseReader (fst (setTransport t c store)))
                  (snd (setTransport t c store))))
          (concat (readable t)) \<and>
   fst (reads_through xs (responseReader c) (snd (setTransport t c store))) =
     fst (reads_through xs (responseReader c) store) \<and>
   snd (setSocket s nc nstore) ! node_reader (fst (setSocket s nc nstore)) =
     new_NodeBufferedReader (readable_side s) \<and>
   node_buf (snd (setSocket s nc nstore) ! node_reader (fst (setSocket s nc nstore))) = [] \<and>
   (\<forall>out st. node_reads_through steps (node_responseReader (fst (setSocket s nc nstore)))
                (snd (setSocket s nc nstore)) = Some (out, st) \<longrightarrow>
      prefix out (concat (readable_side s))) \<and>
   map_option fst (node_reads_through steps (node_responseReader nc) (snd (setSocket s nc nstore))) =
     map_option fst (node_reads_through steps (node_responseReader nc) nstore)"
proof (intro conjI allI impI)
  show a: "snd (setTransport t c store) ! client_reader (fst (setTransport t c store)) =
     new_BufferedReader (readable t)"
    by (simp add: setTransport_def)
  then show "buf (snd (setTransport t c store) ! client_reader (fst (setTransport t c store))) = []"
    by (simp add: new_BufferedReader_def)
  have "responseReader (fst (setTransport t c store)) =
      \<lparr>rr_reader = client_reader (fst (setTransport t c store))\<rparr>"
    by (simp add: responseReader_def)
  with a show "prefix (fst (reads_through xs (responseReader (fst (setTransport t c store)))
                  (snd (setTransport t c store))))
          (concat (readable t))"
    using reads_through_new_reader
      [of "snd (setTransport t c store)" "client_reader (fst (setTransport t c store))"]
    by simp
  from assms(1) have "snd (setTransport t c store) ! client_reader c = store ! client_reader c"
    by (simp add: setTransport_def nth_append)
  then show "fst (reads_through xs (responseReader c) (snd (setTransport t c store))) =
     fst (reads_through xs (responseReader c) store)"
    by (simp add: reads_through_def responseReader_def split_beta)
  show b: "snd (setSocket s nc nstore) ! node_reader (fst (setSocket s nc nstore)) =
     new_NodeBufferedReader (readable_side s)"
    by (simp add: setSocket_def)
  then show "node_buf (snd (setSocket s nc nstore) ! node_reader (fst (setSocket s nc nstore))) = []"
    by (simp add: new_NodeBufferedReader_def)
  from assms(2) have "snd (setSocket s nc nstore) ! node_reader nc = nstore ! node_reader nc"
    by (simp add: setSocket_def nth_append)
  then show "map_option fst
      (node_reads_through steps (node_responseReader nc) (snd (setSocket s nc nstore))) =
     map_option fst (node_reads_through steps (node_responseReader nc) nstore)"
    by (simp add: node_reads_through_def node_responseReader_def split: option.splits)
next
  fix out st
  assume h: "node_reads_through steps (node_responseReader (fst (setSocket s nc nstore)))
      (snd (setSocket s nc nstore)) = Some (out, st)"
  have b: "snd (setSocket s nc nstore) ! node_reader (fst (setSocket s nc nstore)) =
     new_NodeBufferedReader (readable_side s)"
    by (simp add: setSocket_def)
  have "node_responseReader (fst (setSocket s nc nstore)) =
      \<lparr>node_rr_reader = node_reader (fst (setSocket s nc nstore))\<rparr>"
    by (simp add: node_responseReader_def)
  with h have "node_reads_through steps \<lparr>node_rr_reader = node_reader (fst (setSocket s nc nstore))\<rparr>
      (snd (setSocket s nc nstore)) = Some (out, st)"
    by simp
  with b show "prefix out (concat (readable_side s))"
    by (rule node_reads_through_new_reader)
qed

theorem setTransport_discards_buffer_witness:
  "prefix (fst (reads_through [ReadExact 2]
      (responseReader (fst (setTransport \<lparr>readable = [''new''], writable = []\<rparr>
         \<lparr>transport = \<lparr>readable = [], writable = []\<rparr>, client_reader = 0,
          client_writer = \<lparr>writer = []\<rparr>\<rparr>
         [\<lparr>reader = [], buf = ''old'', is_done = False\<rparr>])))
      (snd (setTransport \<lparr>readable = [''new''], writable = []\<rparr>
         \<lparr>transport = \<lparr>readable = [], writable = []\<rparr>, client_reader = 0,
          client_writer = \<lparr>writer = []\<rparr>\<rparr>
         [\<lparr>reader = [], buf = ''old'', is_done = False\<rparr>]))))
     (concat (readable \<lparr>readable = [''new''], writable = []\<rparr>)) \<and>
   prefix ''ne'' (concat (readable_side \<lparr>readable_side = [''new''], writable_side = []\<rparr>))"
proof -
  let ?t = "\<lparr>readable = [''new''], writable = []\<rparr>"
  let ?c = "\<lparr>transport = \<lparr>readable = [], writable = []\<rparr>, client_reader = 0,
          client_writer = \<lparr>writer = []\<rparr>\<rparr>"
  let ?store = "[\<lparr>reader = [], buf = ''old'', is_done = False\<rparr>]"
  let ?s = "\<lparr>readable_side = [''new''], writable_side = []\<rparr>"
  let ?nc = "\<lparr>node_socket_written = [], node_reader = 0\<rparr>"
  let ?nstore = "[\<lparr>socket = [], readableEnded = False, node_buf = ''old''\<rparr>]"
  have h1: "client_reader ?c < length ?store" by simp
  have h2: "node_reader ?nc < length ?nstore" by simp
  note t = setTransport_discards_buffer
      [of ?c ?store ?nc ?nstore ?t "[ReadExact 2]" ?s "[Call (ReadExact 2)]", OF h1 h2]
  from t have w: "prefix (fst (reads_through [ReadExact 2]
      (responseReader (fst (setTransport ?t ?c ?store))) (snd (setTransport ?t ?c ?store))))
     (concat (readable ?t))"
    by (elim conjE)
  have h: "node_reads_through [Call (ReadExact 2)] (node_responseReader (fst (setSocket ?s ?nc ?nstore)))
      (snd (setSocket ?s ?nc ?nstore)) =
      Some (''ne'', [\<lparr>socket = [], readableEnded = False, node_buf = ''old''\<rparr>,
                     \<lparr>socket = [], readableEnded = False, node_buf = ''w''\<rparr>])"
    by code_simp
  from t have "\<forall>out st. node_reads_through [Call (ReadExact 2)]
      (node_responseReader (fst (setSocket ?s ?nc ?nstore))) (snd (setSocket ?s ?nc ?nstore)) =
      Some (out, st) \<longrightarrow> prefix out (concat (readable_side ?s))"
    by (elim conjE)
  with h have p: "prefix ''ne'' (concat (readable_side ?s))" by blast
  from w p show ?thesis by (intro conjI)
qed

theorem setTransport_earlier_response_reader_counterexample:
  "fst (reads_through [ReadExact 2]
     (responseReader
        \<lparr>transport = \<lparr>readable = [], writable = []\<rparr>, client_reader = 0,
         client_writer = \<lparr>writer = []\<rparr>\<rparr>)
     (snd (setTransport \<lparr>readable = [''new''], writable = []\<rparr>
        \<lparr>transport = \<lparr>readable = [], writable = []\<rparr>, client_reader = 0,
         client_writer = \<lparr>writer = []\<rparr>\<rparr>
        [\<lparr>reader = [], buf = ''old'', is_done = False\<rparr>]))) = ''ol'' \<and>
   map_option fst (node_reads_through [Call (ReadExact 2)]
     (node_responseReader \<lparr>node_socket_written = [], node_reader = 0\<rparr>)
     (snd (setSocket \<lparr>readable_side = [''new''], writable_side = []\<rparr>
        \<lparr>node_socket_written = [], node_reader = 0\<rparr>
        [\<lparr>socket = [], readableEnded = False, node_buf = ''old''\<rparr>]))) = Some ''ol''"
  by (intro conjI; code_simp)

text \<open>
  Claim C10. Whatever sequence of \<open>readExact\<close>, \<open>readUntilCRLF\<close> and \<open>readAvailable\<close>
  calls is made on one reader, the bytes the calls return, in call order, followed by
  the bytes the reader has not yet returned, are the bytes of the stream: the returned
  bytes are a prefix of the concatenation of the chunks, with nothing lost, repeated or
  out of order. A call that throws returns nothing and loses nothing. On a socket this
  holds however the arrival of events is interleaved with the calls.
\<close>

theorem reads_return_stream_prefix:
  "fst (run_ops xs r) @ pending (snd (run_ops xs r)) = pending r \<and>
   fst (run_ops xs (new_BufferedReader chunks)) @
     pending (snd (run_ops xs (new_BufferedReader chunks))) = concat chunks \<and>
   prefix (fst (run_ops xs (new_BufferedReader chunks))) (concat chunks) \<and>
   (\<forall>out nr'. node_run_steps steps nr = Some (out, nr') \<longrightarrow>
      out @ node_pending nr' = node_pending nr) \<and>
   (\<forall>out nr'. node_run_steps steps (new_NodeBufferedReader chunks) = Some (out, nr') \<longrightarrow>
      out @ node_pending nr' = concat chunks \<and> prefix out (concat chunks))"
proof (intro conjI allI impI)
  show "fst (run_ops xs r) @ pending (snd (run_ops xs r)) = pending r"
    by (rule run_ops_pending)
  show a: "fst (run_ops xs (new_BufferedReader chunks)) @
     pending (snd (run_ops xs (new_BufferedReader chunks))) = concat chunks"
    by (simp add: run_ops_pending pending_new)
  then show "prefix (fst (run_ops xs (new_BufferedReader chunks))) (concat chunks)"
    by (metis prefixI)
next
  fix out nr'
  assume "node_run_steps steps nr = Some (out, nr')"
  then show "out @ node_pending nr' = node_pending nr" by (rule node_run_steps_pending)
next
  fix out nr'
  assume "node_run_steps steps (new_NodeBufferedReader chunks) = Some (out, nr')"
  then have "out @ node_pending nr' = node_pending (new_NodeBufferedReader chunks)"
    by (rule node_run_steps_pending)
  then show b: "out @ node_pending nr' = concat chunks" by (simp add: node_pending_new)
  then show "prefix out (concat chunks)" by (metis prefixI)
qed

theorem reads_return_stream_prefix_witness:
  "node_run_steps [Call ReadUntilCRLF, Arrive, Call (ReadExact 2), Call (ReadAvailable 5)]
     (new_NodeBufferedReader [''ab'' @ [CR], LF # ''cd'', ''efg'']) =
     Some (''ab'' @ CRLF @ ''cdefg'', \<lparr>socket = [], readableEnded = False, node_buf = []\<rparr>) \<and>
   (''ab'' @ CRLF @ ''cdefg'') @ node_pending \<lparr>socket = [], readableEnded = False, node_buf = []\<rparr> =
     concat [''ab'' @ [CR], LF # ''cd'', ''efg''] \<and>
   prefix (''ab'' @ CRLF @ ''cdefg'') (concat [''ab'' @ [CR], LF # ''cd'', ''efg''])"
proof -
  let ?steps = "[Call ReadUntilCRLF, Arrive, Call (ReadExact 2), Call (ReadAvailable 5)]"
  let ?cs = "[''ab'' @ [CR], LF # ''cd'', ''efg'']"
  let ?r' = "\<lparr>socket = [], readableEnded = False, node_buf = []\<rparr>"
  have h: "node_run_steps ?steps (new_NodeBufferedReader ?cs) = Some (''ab'' @ CRLF @ ''cdefg'', ?r')"
    by code_simp
  from reads_return_stream_prefix [of "[]" "new_BufferedReader []" ?cs ?steps "new_NodeBufferedReader ?cs"] h
  have "(''ab'' @ CRLF @ ''cdefg'') @ node_pending ?r' = concat ?cs \<and>
      prefix (''ab'' @ CRLF @ ''cdefg'') (concat ?cs)"
    by blast
  with h show ?thesis by (intro conjI) blast+
qed

text \<open>
  Claim C5, as amended. Let the next line of the response be \<open>line\<close>, a string of
  ASCII characters followed by the delimiter, whose first token is exactly the protocol
  identifier; \<open>rest\<close> are the tokens after it. In both ports \<open>readStatusLine\<close> fails with
  \<open>Invalid status code\<close> exactly when there is no second token or the second token
  does not begin with an integer (white space, at most one sign, one or more digits);
  otherwise it succeeds and ignores what follows the digits. The status is then the
  number for the signed integer: for a digit run below \<open>10 ^ 20\<close> the double nearest
  to it, which up to \<open>2 ^ 53\<close> is the integer itself, sign included. So \<open>-5\<close> yields the
  status \<open>-5\<close> and \<open>200abc\<close> yields \<open>200\<close>.
\<close>

theorem readStatusLine_status_code:
  assumes "pending r = line @ CRLF @ after"
    and "node_pending nr = line @ CRLF @ after'"
    and "first_crlf (line @ CRLF) (length line)"
    and "is_ascii line" and "decoder line = line"
    and "js_split line = GURT_VERSION # rest"
  shows "pending (snd (readStatusLine decoder r)) = after \<and>
     (\<exists>nr'. node_readStatusLine nr = Some (fst (readStatusLine decoder r), nr') \<and>
        node_pending nr' = after') \<and>
     (fst (readStatusLine decoder r) = Inl InvalidStatusCode \<longleftrightarrow>
        \<not> (\<exists>tok others negative m. rest = tok # others \<and> integer_prefix tok negative m)) \<and>
     (\<forall>tok others negative m. rest = tok # others \<and> integer_prefix tok negative m \<longrightarrow>
        (\<exists>st. fst (readStatusLine decoder r) =
               Inr \<lparr>status = st, bytesRead = length line + 2\<rparr>)) \<and>
     (\<forall>tok others negative m.
        rest = tok # others \<and> integer_prefix tok negative m \<and> m < 10 ^ 20 \<longrightarrow>
        fst (readStatusLine decoder r) =
          Inr \<lparr>status = to_Number negative m, bytesRead = length line + 2\<rparr>) \<and>
     (\<forall>tok others negative m.
        rest = tok # others \<and> integer_prefix tok negative m \<and> 0 < m \<and> m \<le> 2 ^ 53 \<longrightarrow>
        fst (readStatusLine decoder r) =
          Inr \<lparr>status = Num (if negative then - m else m),
               bytesRead = length line + 2\<rparr>)"
proof -
  define res where "res = statusLine_of line (length line + 2)"
  have w1: "fst (readUntilCRLF r) = Inr (line @ CRLF)"
    and w2: "pending (snd (readUntilCRLF r)) = after"
    using assms(1,3) by (rule readUntilCRLF_line)+
  obtain r' where r': "readUntilCRLF r = (Inr (line @ CRLF), r')" and p': "pending r' = after"
    using w1 w2 by (cases "readUntilCRLF r") auto
  have dl: "decoder (take (length (line @ CRLF) - 2) (line @ CRLF)) = line"
    by (simp only: line_of_delimited assms(5))
  have al: "ascii_toString (take (length (line @ CRLF) - 2) (line @ CRLF)) = line"
    by (simp only: line_of_delimited ascii_toString_id [OF assms(4)])
  have a: "readStatusLine decoder r = (res, r')"
    unfolding readStatusLine_def r' res_def
    by (simp only: prod.case sum.case dl) (simp only: length_delimited)
  obtain nr' where nr': "node_readUntilCRLF nr = Some (Inr (line @ CRLF), nr')"
      and np': "node_pending nr' = after'"
    using node_readUntilCRLF_line [OF assms(2,3)] by blast
  have b: "node_readStatusLine nr = Some (res, nr')"
    unfolding node_readStatusLine_def nr' res_def
    by (simp only: option.case prod.case sum.case al) (simp only: length_delimited)
  have p0: "parts_at (GURT_VERSION # rest) 0 = Some GURT_VERSION"
    by (simp add: parts_at_def)
  have res: "res =
      (if parseInt (parts_at (GURT_VERSION # rest) 1) = NaN then Inl InvalidStatusCode
       else Inr \<lparr>status = parseInt (parts_at (GURT_VERSION # rest) 1),
                 bytesRead = length line + 2\<rparr>)"
    unfolding res_def statusLine_of_def Let_def assms(6) p0 by simp
  have c: "res = Inl InvalidStatusCode \<longleftrightarrow>
      \<not> (\<exists>tok others negative m. rest = tok # others \<and> integer_prefix tok negative m)"
  proof (cases rest)
    case Nil
    then have "parts_at (GURT_VERSION # rest) 1 = None" by (simp add: parts_at_def)
    with res Nil show ?thesis by (simp add: parseInt_undefined)
  next
    case (Cons tok others)
    then have p1: "parts_at (GURT_VERSION # rest) 1 = Some tok" by (simp add: parts_at_def)
    have "res = Inl InvalidStatusCode \<longleftrightarrow> parseInt (Some tok) = NaN"
      unfolding res p1 by simp
    also have "\<dots> \<longleftrightarrow> (\<forall>negative m. \<not> integer_prefix tok negative m)"
      by (rule parseInt_NaN_iff)
    finally show ?thesis using Cons by simp
  qed
  have g: "res = Inr \<lparr>status = to_Number negative m, bytesRead = length line + 2\<rparr>"
    if h: "rest = tok # others \<and> integer_prefix tok negative m" for tok others negative m
  proof -
    from h have p1: "parts_at (GURT_VERSION # rest) 1 = Some tok" by (simp add: parts_at_def)
    from h have "parseInt (Some tok) = to_Number negative m" by (simp add: parseInt_of_prefix)
    then show ?thesis unfolding res p1 by (simp add: to_Number_not_NaN)
  qed
  have d: "\<forall>tok others negative m. rest = tok # others \<and> integer_prefix tok negative m \<longrightarrow>
      (\<exists>st. res = Inr \<lparr>status = st, bytesRead = length line + 2\<rparr>)"
    using g by blast
  have e: "\<forall>tok others negative m.
      rest = tok # others \<and> integer_prefix tok negative m \<and> m < 10 ^ 20 \<longrightarrow>
      res = Inr \<lparr>status = to_Number negative m, bytesRead = length line + 2\<rparr>"
    using g by blast
  have f: "\<forall>tok others negative m.
      rest = tok # others \<and> integer_prefix tok negative m \<and> 0 < m \<and> m \<le> 2 ^ 53 \<longrightarrow>
      res = Inr \<lparr>status = Num (if negative then - m else m),
                 bytesRead = length line + 2\<rparr>"
  proof (intro allI impI)
    fix tok others negative m
    assume h: "rest = tok # others \<and> integer_prefix tok negative m \<and> 0 < m \<and> m \<le> 2 ^ 53"
    then have "res = Inr \<lparr>status = to_Number negative m, bytesRead = length line + 2\<rparr>"
      using g by blast
    moreover from h have "to_Number negative m = Num (if negative then - m else m)"
      by (simp add: to_Number_exact)
    ultimately show "res = Inr \<lparr>status = Num (if negative then - m else m),
                 bytesRead = length line + 2\<rparr>"
      by simp
  qed
  from b np' have b': "\<exists>nr'. node_readStatusLine nr = Some (res, nr') \<and> node_pending nr' = after'"
    by blast
  from a have fs: "fst (readStatusLine decoder r) = res"
    and sn: "snd (readStatusLine decoder r) = r'"
    by simp_all
  from p' b' c d e f show ?thesis unfolding fs sn by (intro conjI)
qed

theorem readStatusLine_status_code_witness:
  "fst (readStatusLine (\<lambda>b. b) (new_BufferedReader [''GURT/1.0.0 -5 NO'' @ CRLF])) =
     Inr \<lparr>status = Num (- 5), bytesRead = 18\<rparr> \<and>
   fst (readStatusLine (\<lambda>b. b) (new_BufferedReader [''GURT/1.0.0 -5 NO'' @ CRLF])) =
     Inr \<lparr>status = to_Number True 5, bytesRead = 18\<rparr> \<and>
   fst (readStatusLine (\<lambda>b. b) (new_BufferedReader [''GURT/1.0.0'' @ CRLF])) =
     Inl InvalidStatusCode"
proof -
  let ?line = "''GURT/1.0.0 -5 NO''"
  have h1: "pending (new_BufferedReader [?line @ CRLF]) = ?line @ CRLF @ []"
    by (simp add: pending_new)
  have h2: "node_pending (new_NodeBufferedReader [?line @ CRLF]) = ?line @ CRLF @ []"
    by (simp add: node_pending_new)
  have "indexOfCRLF (?line @ CRLF) = int (length ?line)" by code_simp
  then have h3: "first_crlf (?line @ CRLF) (length ?line)" by (simp only: first_crlf_index)
  have h4: "is_ascii ?line" by (simp add: is_ascii_def)
  have h5: "(\<lambda>b. b) ?line = ?line" by simp
  have h6: "js_split ?line = GURT_VERSION # [''-5'', ''NO'']" by (simp add: GURT_VERSION_def)
  have "''-5'' = [] @ ''-'' @ ''5'' @ [] \<and> list_all isWhiteSpace [] \<and>
      (''-'' = [] \<or> ''-'' = ''+'' \<or> ''-'' = ''-'') \<and> ''5'' \<noteq> [] \<and> list_all isDigit ''5'' \<and>
      ([] = [] \<or> \<not> isDigit (hd [])) \<and>
      True = (''-'' = ''-'') \<and> 5 = digits_value ''5''"
    by (simp add: isDigit_def digits_value_def)
  then have ip: "integer_prefix ''-5'' True 5"
    unfolding integer_prefix_def by blast
  note t1 = readStatusLine_status_code
      [where decoder = "\<lambda>b. b" and line = ?line, OF h1 h2 h3 h4 h5 h6]
  from t1 have "\<forall>tok others negative m.
      [''-5'', ''NO''] = tok # others \<and> integer_prefix tok negative m \<and> 0 < m \<and> m \<le> 2 ^ 53 \<longrightarrow>
      fst (readStatusLine (\<lambda>b. b) (new_BufferedReader [?line @ CRLF])) =
        Inr \<lparr>status = Num (if negative then - m else m),
             bytesRead = length ?line + 2\<rparr>"
    by (elim conjE)
  then have "[''-5'', ''NO''] = ''-5'' # [''NO''] \<and> integer_prefix ''-5'' True 5 \<and>
      0 < (5::int) \<and> (5::int) \<le> 2 ^ 53 \<longrightarrow>
      fst (readStatusLine (\<lambda>b. b) (new_BufferedReader [?line @ CRLF])) =
        Inr \<lparr>status = Num (if True then - 5 else 5), bytesRead = length ?line + 2\<rparr>"
    by (elim allE)
  with ip have c1: "fst (readStatusLine (\<lambda>b. b) (new_BufferedReader [?line @ CRLF])) =
      Inr \<lparr>status = Num (- 5), bytesRead = 18\<rparr>" by simp
  from t1 have "\<forall>tok others negative m.
      [''-5'', ''NO''] = tok # others \<and> integer_prefix tok negative m \<and> m < 10 ^ 20 \<longrightarrow>
      fst (readStatusLine (\<lambda>b. b) (new_BufferedReader [?line @ CRLF])) =
        Inr \<lparr>status = to_Number negative m, bytesRead = length ?line + 2\<rparr>"
    by (elim conjE)
  then have "[''-5'', ''NO''] = ''-5'' # [''NO''] \<and> integer_prefix ''-5'' True 5 \<and>
      (5::int) < 10 ^ 20 \<longrightarrow>
      fst (readStatusLine (\<lambda>b. b) (new_BufferedReader [?line @ CRLF])) =
        Inr \<lparr>status = to_Number True 5, bytesRead = length ?line + 2\<rparr>"
    by (elim allE)
  with ip have c1': "fst (readStatusLine (\<lambda>b. b) (new_BufferedReader [?line @ CRLF])) =
      Inr \<lparr>status = to_Number True 5, bytesRead = 18\<rparr>" by simp
  let ?l2 = "''GURT/1.0.0''"
  have g1: "pending (new_BufferedReader [?l2 @ CRLF]) = ?l2 @ CRLF @ []"
    by (simp add: pending_new)
  have g2: "node_pending (new_NodeBufferedReader [?l2 @ CRLF]) = ?l2 @ CRLF @ []"
    by (simp add: node_pending_new)
  have "indexOfCRLF (?l2 @ CRLF) = int (length ?l2)" by code_simp
  then have g3: "first_crlf (?l2 @ CRLF) (length ?l2)" by (simp only: first_crlf_index)
  have g4: "is_ascii ?l2" by (simp add: is_ascii_def)
  have g5: "(\<lambda>b. b) ?l2 = ?l2" by simp
  have g6: "js_split ?l2 = GURT_VERSION # []" by (simp add: GURT_VERSION_def)
  note t2 = readStatusLine_status_code
      [where decoder = "\<lambda>b. b" and line = ?l2, OF g1 g2 g3 g4 g5 g6]
  from t2 have "fst (readStatusLine (\<lambda>b. b) (new_BufferedReader [?l2 @ CRLF])) =
        Inl InvalidStatusCode \<longleftrightarrow>
      \<not> (\<exists>tok others negative m. [] = tok # others \<and> integer_prefix tok negative m)"
    by (elim conjE)
  then have c2: "fst (readStatusLine (\<lambda>b. b) (new_BufferedReader [?l2 @ CRLF])) =
      Inl InvalidStatusCode" by simp
  from c1 c1' c2 show ?thesis by (intro conjI)
qed

theorem readStatusLine_lenient_code_counterexample:
  "node_readStatusLine (new_NodeBufferedReader [''GURT/1.0.0 -5 NO'' @ CRLF]) =
     Some (Inr \<lparr>status = Num (- 5), bytesRead = 18\<rparr>,
           \<lparr>socket = [], readableEnded = False, node_buf = []\<rparr>) \<and>
   node_readStatusLine (new_NodeBufferedReader [''GURT/1.0.0 200abc OK'' @ CRLF]) =
     Some (Inr \<lparr>status = Num 200, bytesRead = 22\<rparr>,
           \<lparr>socket = [], readableEnded = False, node_buf = []\<rparr>)"
  by (intro conjI; code_simp)

text \<open>
  The numbers of long digit runs: past \<open>2 ^ 53\<close> the status is the nearest double, and
  a run of 400 nines gives infinity, which is not \<open>NaN\<close> and so is accepted.
\<close>

lemma parseInt_rounds:
  "parseInt (Some ''9007199254740993'') = Num 9007199254740992"
  by code_simp

lemma parseInt_overflows: "parseInt (Some (replicate 400 (CHR ''9''))) = PosInfinity"
  by code_simp

text \<open>
  Lines with bytes above \<open>0x7F\<close> are outside the statement above. The Node port clears
  the top bit of such a byte before it parses, so it reads the bytes \<open>0xB2 0xB0 0xB0\<close>
  as the digits \<open>200\<close>.
\<close>

lemma node_readStatusLine_high_bit_digits:
  "node_readStatusLine
     (new_NodeBufferedReader [''GURT/1.0.0 '' @ [CHR 0xB2, CHR 0xB0, CHR 0xB0] @ CRLF]) =
     Some (Inr \<lparr>status = Num 200, bytesRead = 16\<rparr>,
           \<lparr>socket = [], readableEnded = False, node_buf = []\<rparr>)"
  by code_simp

text \<open>
  Header lines of ASCII characters. Let the next line of the response be \<open>line\<close>, a
  string of ASCII characters followed by the delimiter. In both ports \<open>readHeader\<close>
  consumes the line and the delimiter and returns: "no more headers" when the line is
  empty; \<open>Invalid header\<close> when the line is not empty and has no colon; and otherwise,
  with \<open>pre\<close> the text before the first colon and \<open>post\<close> all the text after it
  (further colons included), the name \<open>pre\<close> trimmed and in lower case and the value
  \<open>post\<close> trimmed.
\<close>

lemma readHeader_ascii_line:
  assumes "pending r = line @ CRLF @ after"
    and "node_pending nr = line @ CRLF @ after'"
    and "first_crlf (line @ CRLF) (length line)"
    and "is_ascii line" and "decoder line = line"
  shows "pending (snd (readHeader decoder r)) = after \<and>
     (\<exists>nr'. node_readHeader nr = Some (fst (readHeader decoder r), nr') \<and>
        node_pending nr' = after') \<and>
     (line = [] \<longrightarrow> fst (readHeader decoder r) = Inr None) \<and>
     (line \<noteq> [] \<and> CHR '':'' \<notin> set line \<longrightarrow>
        fst (readHeader decoder r) = Inl InvalidHeader) \<and>
     (\<forall>pre post. line = pre @ CHR '':'' # post \<and> CHR '':'' \<notin> set pre \<longrightarrow>
        fst (readHeader decoder r) =
          Inr (Some \<lparr>name = js_toLowerCase (js_trim pre),
                       header_value = js_trim post,
                       totalBytes = length line + 2\<rparr>))"
proof -
  define res where
    "res = (if length line + 2 = 2 then Inr None else header_of line (length line + 2))"
  have w1: "fst (readUntilCRLF r) = Inr (line @ CRLF)"
    and w2: "pending (snd (readUntilCRLF r)) = after"
    using assms(1,3) by (rule readUntilCRLF_line)+
  obtain r' where r': "readUntilCRLF r = (Inr (line @ CRLF), r')" and p': "pending r' = after"
    using w1 w2 by (cases "readUntilCRLF r") auto
  have dl: "decoder (take (length (line @ CRLF) - 2) (line @ CRLF)) = line"
    by (simp only: line_of_delimited assms(5))
  have al: "ascii_toString (take (length (line @ CRLF) - 2) (line @ CRLF)) = line"
    by (simp only: line_of_delimited ascii_toString_id [OF assms(4)])
  have a: "readHeader decoder r = (res, r')"
    unfolding readHeader_def r' res_def
    by (simp only: prod.case sum.case dl) (simp only: length_delimited split: if_splits, simp)
  obtain nr' where nr': "node_readUntilCRLF nr = Some (Inr (line @ CRLF), nr')"
      and np': "node_pending nr' = after'"
    using node_readUntilCRLF_line [OF assms(2,3)] by blast
  have b: "node_readHeader nr = Some (res, nr')"
    unfolding node_readHeader_def nr' res_def
    by (simp only: option.case prod.case sum.case al)
       (simp only: length_delimited split: if_splits, simp)
  have c: "line = [] \<longrightarrow> res = Inr None" by (simp add: res_def)
  have d: "line \<noteq> [] \<and> CHR '':'' \<notin> set line \<longrightarrow> res = Inl InvalidHeader"
    by (simp add: res_def header_of_no_colon)
  have e: "\<forall>pre post. line = pre @ CHR '':'' # post \<and> CHR '':'' \<notin> set pre \<longrightarrow>
        res = Inr (Some \<lparr>name = js_toLowerCase (js_trim pre),
                         header_value = js_trim post,
                         totalBytes = length line + 2\<rparr>)"
  proof (intro allI impI)
    fix pre post
    assume h: "line = pre @ CHR '':'' # post \<and> CHR '':'' \<notin> set pre"
    then have "header_of line (length line + 2) =
        Inr (Some \<lparr>name = js_toLowerCase (js_trim pre), header_value = js_trim post,
                   totalBytes = length line + 2\<rparr>)"
      using header_of_colon [of pre post "length line + 2"] by simp
    moreover from h have "line \<noteq> []" by auto
    ultimately show "res = Inr (Some \<lparr>name = js_toLowerCase (js_trim pre),
                         header_value = js_trim post,
                         totalBytes = length line + 2\<rparr>)"
      by (simp add: res_def)
  qed
  from b np' have b': "\<exists>nr'. node_readHeader nr = Some (res, nr') \<and> node_pending nr' = after'"
    by blast
  from a have f: "fst (readHeader decoder r) = res" and s: "snd (readHeader decoder r) = r'"
    by simp_all
  from p' b' c d e show ?thesis unfolding f s by (intro conjI)
qed

text \<open>
  Claim C6, at the failing input. The line is the seven bytes \<open>host\<close>, \<open>0xBA\<close>, \<open>Ab\<close>:
  it holds no colon. The Node \<open>readHeader\<close> decodes with \<open>toString('ascii')\<close>, which
  clears the top bit of \<open>0xBA\<close> and so reads a colon there: it returns the header
  \<open>host\<close> with the value \<open>Ab\<close> and does not fail with \<open>Invalid header\<close>.
\<close>

theorem node_readHeader_high_bit_colon:
  "CHR '':'' \<notin> set (''host'' @ [CHR 0xBA] @ ''Ab'') \<and>
   node_readHeader (new_NodeBufferedReader [''host'' @ [CHR 0xBA] @ ''Ab'' @ CRLF]) =
     Some (Inr (Some \<lparr>name = ''host'', header_value = ''Ab'', totalBytes = 9\<rparr>),
           \<lparr>socket = [], readableEnded = False, node_buf = []\<rparr>)"
  by (intro conjI; code_simp)

end
